theory Spec2Isabelle
  imports Main "HOL-Library.AList" "HOL-Library.Multiset" "HOL-Library.List_Lexorder"
    "HOL-Library.Char_ord"
begin

section \<open>Data model\<close>

text \<open>
  \<^verbatim>\<open>query_nomad/script.py\<close>: the dataclass \<^verbatim>\<open>RepoEntry\<close>. The class of the same name in
  \<^verbatim>\<open>query_nomad/script_distinct_authors.py\<close> has one more field, \<^verbatim>\<open>main_author\<close>; it is
  the extension \<open>RepoEntryMA\<close> below, so the code that both scripts share is modelled
  once, over every extension of \<open>RepoEntry\<close>. Equality of records is field by field, as
  the \<^verbatim>\<open>__eq__\<close> that \<^verbatim>\<open>@dataclass\<close> generates.
\<close>

record RepoEntry =
  entry_id :: string
  upload_id :: "string option"
  mainfile :: "string option"
  system :: string
  structural_type :: "string option"

record RepoEntryMA = RepoEntry +
  main_author :: "string option"

datatype error = ValueError string | KeyError string | HTTPError nat

datatype notice = Warn_reducing int nat

text \<open>A dict is an association list in insertion order; \<open>AList.update\<close> overwrites the
  value of a key in place and appends a new key at the end, as assignment to a Python
  dict does.\<close>

type_synonym 'e buckets = "(string \<times> 'e list) list"
type_synonym alloc = "(string \<times> int) list"

section \<open>Bucketing and allocation (both scripts)\<close>

text \<open>\<^verbatim>\<open>buckets.setdefault(e.system, []).append(e)\<close>\<close>

definition setdefault_append :: "'e buckets \<Rightarrow> string \<Rightarrow> 'e \<Rightarrow> 'e buckets" where
  "setdefault_append buckets s e =
     AList.update s ((case map_of buckets s of None \<Rightarrow> [] | Some b \<Rightarrow> b) @ [e]) buckets"

definition make_buckets :: "('a RepoEntry_scheme) list \<Rightarrow> ('a RepoEntry_scheme) buckets" where
  "make_buckets entries = fold (\<lambda>e buckets. setdefault_append buckets (system e) e) entries []"

text \<open>\<^verbatim>\<open>buckets[s]\<close> and \<^verbatim>\<open>alloc[s]\<close>. Every key looked up comes from \<^verbatim>\<open>buckets.keys()\<close>, and
  \<^verbatim>\<open>alloc\<close> has the same keys (lemma \<open>initial_alloc_keys\<close>), so the \<^verbatim>\<open>KeyError\<close> of a
  missing key has no run; the default stands in for it.\<close>

definition bucket_at :: "'e buckets \<Rightarrow> string \<Rightarrow> 'e list" where
  "bucket_at buckets s = (case map_of buckets s of None \<Rightarrow> [] | Some b \<Rightarrow> b)"

definition alloc_get :: "alloc \<Rightarrow> string \<Rightarrow> int \<Rightarrow> int" where
  "alloc_get alloc s d = (case map_of alloc s of None \<Rightarrow> d | Some v \<Rightarrow> v)"

text \<open>
  The initial proportional allocation. \<^verbatim>\<open>int(round((len(bucket) / n_total) * target_size))\<close>
  is computed by Python in double-precision floating point; it enters as the parameter
  \<open>rnd\<close> (bucket size, population size, target), and every theorem below holds for
  every \<open>rnd\<close>.
\<close>

definition initial_alloc :: "(nat \<Rightarrow> nat \<Rightarrow> int \<Rightarrow> int) \<Rightarrow> 'e buckets \<Rightarrow> nat \<Rightarrow> int \<Rightarrow> alloc" where
  "initial_alloc rnd buckets n_total target_size =
     map (\<lambda>(system, bucket).
            (system, (let k = rnd (length bucket) n_total target_size
                      in if k < 1 \<and> length bucket > 0 then 1 else k)))
         buckets"

text \<open>\<^verbatim>\<open>sorted(buckets.keys(), key=lambda s: len(buckets[s]), reverse=True)\<close>: Python's sort is
  stable, and with \<^verbatim>\<open>reverse=True\<close> it reverses the list, sorts it ascending and reverses
  the result. \<open>sort_key\<close> is the stable insertion sort.\<close>

definition systems_sorted :: "'e buckets \<Rightarrow> string list" where
  "systems_sorted buckets =
     rev (sort_key (\<lambda>s. length (bucket_at buckets s)) (rev (map fst buckets)))"

text \<open>The loop \<^verbatim>\<open>while remaining > 0\<close>, by recursion on \<^verbatim>\<open>remaining\<close>.\<close>

fun add_remaining :: "alloc \<Rightarrow> string list \<Rightarrow> nat \<Rightarrow> nat \<Rightarrow> alloc" where
  "add_remaining alloc ss 0 idx = alloc"
| "add_remaining alloc ss (Suc remaining) idx =
     add_remaining
       (AList.update (ss ! (idx mod length ss))
          (alloc_get alloc (ss ! (idx mod length ss)) 0 + 1) alloc)
       ss remaining (Suc idx)"

text \<open>The loop \<^verbatim>\<open>while surplus > 0 and any(v > 1 for v in alloc.values())\<close>. An iteration
  that finds \<^verbatim>\<open>alloc[s] <= 1\<close> changes only \<^verbatim>\<open>idx\<close>, so the loop has no structural
  measure: not returning is the value \<open>None\<close>.\<close>

partial_function (option) remove_surplus :: "alloc \<Rightarrow> string list \<Rightarrow> int \<Rightarrow> nat \<Rightarrow> alloc option" where
  "remove_surplus alloc ss surplus idx =
     (if surplus > 0 \<and> list_ex (\<lambda>v. v > 1) (map snd alloc) then
        (if alloc_get alloc (ss ! (idx mod length ss)) 0 > 1 then
           remove_surplus
             (AList.update (ss ! (idx mod length ss))
                (alloc_get alloc (ss ! (idx mod length ss)) 0 - 1) alloc)
             ss (surplus - 1) (Suc idx)
         else remove_surplus alloc ss surplus (Suc idx))
      else Some alloc)"

definition adjust_alloc :: "alloc \<Rightarrow> string list \<Rightarrow> int \<Rightarrow> alloc option" where
  "adjust_alloc alloc ss target_size =
     (let current = sum_list (map snd alloc) in
      if current < target_size then Some (add_remaining alloc ss (nat (target_size - current)) 0)
      else if current > target_size then remove_surplus alloc ss (current - target_size) 0
      else Some alloc)"

text \<open>The quotas with which the selection starts, for a target already clamped.\<close>

definition allocation ::
  "(nat \<Rightarrow> nat \<Rightarrow> int \<Rightarrow> int) \<Rightarrow> ('a RepoEntry_scheme) list \<Rightarrow> int \<Rightarrow> alloc option" where
  "allocation rnd entries target_size =
     (let buckets = make_buckets entries
      in adjust_alloc (initial_alloc rnd buckets (length entries) target_size)
           (systems_sorted buckets) target_size)"

section \<open>The random number generator\<close>

text \<open>
  \<^verbatim>\<open>random.Random\<close> is the standard library's. Its state is a value of any type \<open>'r\<close>;
  \<^verbatim>\<open>rng.sample(population, k)\<close> and \<^verbatim>\<open>rng.shuffle(x)\<close> are parameters that take the
  state and return the drawn list together with the next state. What the library promises
  of them is stated as two contracts: a sample has \<open>k\<close> elements taken from \<open>k\<close> different
  positions of the population, and a shuffle is a rearrangement.
\<close>

type_synonym ('r, 'e) sampler = "'r \<Rightarrow> 'e list \<Rightarrow> nat \<Rightarrow> 'e list \<times> 'r"
type_synonym ('r, 'e) shuffler = "'r \<Rightarrow> 'e list \<Rightarrow> 'e list \<times> 'r"

definition sample_contract :: "('r, 'e) sampler \<Rightarrow> bool" where
  "sample_contract smp \<longleftrightarrow>
     (\<forall>rng xs k. k \<le> length xs \<longrightarrow>
        length (fst (smp rng xs k)) = k \<and> mset (fst (smp rng xs k)) \<subseteq># mset xs)"

definition shuffle_contract :: "('r, 'e) shuffler \<Rightarrow> bool" where
  "shuffle_contract shf \<longleftrightarrow> (\<forall>rng xs. mset (fst (shf rng xs)) = mset xs)"

text \<open>\<^verbatim>\<open>rng.sample\<close> raises \<^verbatim>\<open>ValueError\<close> unless \<^verbatim>\<open>0 <= k <= len(population)\<close>.\<close>

definition py_sample :: "('r, 'e) sampler \<Rightarrow> 'r \<Rightarrow> 'e list \<Rightarrow> int \<Rightarrow> error + ('e list \<times> 'r)" where
  "py_sample smp rng population k =
     (if k < 0 \<or> int (length population) < k
      then Inl (ValueError ''Sample larger than population or is negative'')
      else Inr (smp rng population (nat k)))"

section \<open>Global trim and top-up (both scripts)\<close>

definition trim_top_up ::
  "('r, 'a RepoEntry_scheme) sampler \<Rightarrow> ('a RepoEntry_scheme) list \<Rightarrow> int \<Rightarrow>
   ('a RepoEntry_scheme) list \<Rightarrow> 'r \<Rightarrow> error + (('a RepoEntry_scheme) list \<times> 'r)" where
  "trim_top_up smp entries target_size selected rng =
     (if int (length selected) > target_size then py_sample smp rng selected target_size
      else if int (length selected) < target_size then
        (let selected_ids = set (map entry_id selected);
             remaining_pool = filter (\<lambda>e. entry_id e \<notin> selected_ids) entries;
             k_extra = min (target_size - int (length selected)) (int (length remaining_pool))
         in if k_extra > 0 then
              (case py_sample smp rng remaining_pool k_extra of
                 Inl err \<Rightarrow> Inl err
               | Inr (extra, rng') \<Rightarrow> Inr (selected @ extra, rng'))
            else Inr (selected, rng))
      else Inr (selected, rng))"

section \<open>\<^verbatim>\<open>script.py\<close>: \<^verbatim>\<open>stratified_sample\<close>\<close>

text \<open>The loop \<^verbatim>\<open>for system, bucket in buckets.items()\<close> that draws the samples.\<close>

fun draw_samples ::
  "('r, 'e) sampler \<Rightarrow> alloc \<Rightarrow> 'e buckets \<Rightarrow> 'e list \<Rightarrow> 'r \<Rightarrow> error + ('e list \<times> 'r)" where
  "draw_samples smp alloc [] selected rng = Inr (selected, rng)"
| "draw_samples smp alloc ((s, bucket) # items) selected rng =
     (let k = min (alloc_get alloc s 0) (int (length bucket)) in
      if k \<le> 0 then draw_samples smp alloc items selected rng
      else (case py_sample smp rng bucket k of
              Inl err \<Rightarrow> Inl err
            | Inr (drawn, rng') \<Rightarrow> draw_samples smp alloc items (selected @ drawn) rng'))"

text \<open>The result is \<open>None\<close> when the function does not return, \<open>Some (Inl err)\<close> when it
  raises, and otherwise the returned list, the state in which it leaves \<^verbatim>\<open>rng\<close>, and the
  warnings it has printed.\<close>

definition stratified_sample ::
  "(nat \<Rightarrow> nat \<Rightarrow> int \<Rightarrow> int) \<Rightarrow> ('r, 'a RepoEntry_scheme) sampler \<Rightarrow>
   ('a RepoEntry_scheme) list \<Rightarrow> int \<Rightarrow> 'r \<Rightarrow>
   (error + (('a RepoEntry_scheme) list \<times> 'r \<times> notice list)) option" where
  "stratified_sample rnd smp entries target_size rng =
     (if target_size \<le> 0 then Some (Inl (ValueError ''target_size must be positive''))
      else if length entries = 0 then Some (Inl (ValueError ''no entries available for sampling''))
      else
        (let n_total = length entries;
             notices = (if target_size > int n_total then [Warn_reducing target_size n_total] else []);
             clamped = (if target_size > int n_total then int n_total else target_size);
             buckets = make_buckets entries
         in case allocation rnd entries clamped of
              None \<Rightarrow> None
            | Some alloc \<Rightarrow>
                Some (case draw_samples smp alloc buckets [] rng of
                        Inl err \<Rightarrow> Inl err
                      | Inr (selected, rng') \<Rightarrow>
                          (case trim_top_up smp entries clamped selected rng' of
                             Inl err \<Rightarrow> Inl err
                           | Inr (sample, rng'') \<Rightarrow> Inr (sample, rng'', notices)))))"

section \<open>\<^verbatim>\<open>script_distinct_authors.py\<close>: \<^verbatim>\<open>main_author_diverse_stratified_sample\<close>\<close>

text \<open>First pass over the shuffled bucket: \<open>system_selected\<close> and \<open>used_authors\<close> are the
  two variables the loop updates.\<close>

fun first_pass ::
  "('a RepoEntryMA_scheme) list \<Rightarrow> int \<Rightarrow> ('a RepoEntryMA_scheme) list \<Rightarrow> string set \<Rightarrow>
   ('a RepoEntryMA_scheme) list \<times> string set" where
  "first_pass [] need system_selected used_authors = (system_selected, used_authors)"
| "first_pass (e # es) need system_selected used_authors =
     (if int (length system_selected) \<ge> need then (system_selected, used_authors)
      else (case main_author e of
              None \<Rightarrow> first_pass es need system_selected used_authors
            | Some a \<Rightarrow>
                if a \<notin> used_authors
                then first_pass es need (system_selected @ [e]) (insert a used_authors)
                else first_pass es need system_selected used_authors))"

text \<open>Second pass: \<^verbatim>\<open>e in system_selected\<close> compares entries with \<^verbatim>\<open>==\<close>.\<close>

fun second_pass :: "'e list \<Rightarrow> int \<Rightarrow> 'e list \<Rightarrow> 'e list" where
  "second_pass [] need system_selected = system_selected"
| "second_pass (e # es) need system_selected =
     (if int (length system_selected) \<ge> need then system_selected
      else if e \<in> set system_selected then second_pass es need system_selected
      else second_pass es need (system_selected @ [e]))"

text \<open>The body of the loop \<^verbatim>\<open>for system in systems_sorted\<close> after the shuffle: both passes
  over \<open>bucket_copy\<close>. It returns \<open>system_selected\<close> and the updated \<open>used_authors\<close>; its
  third result is not a variable of the source: it is the part of \<open>system_selected\<close> that
  the first pass has chosen, kept for the statements about the first pass.\<close>

definition select_in_system ::
  "('a RepoEntryMA_scheme) list \<Rightarrow> int \<Rightarrow> string set \<Rightarrow>
   ('a RepoEntryMA_scheme) list \<times> string set \<times> ('a RepoEntryMA_scheme) list" where
  "select_in_system bucket_copy need used_authors =
     (let (first, used_authors') = first_pass bucket_copy need [] used_authors;
          system_selected =
            (if int (length first) < need then second_pass bucket_copy need first else first)
      in (system_selected, used_authors', first))"

text \<open>The loop \<^verbatim>\<open>for system in systems_sorted\<close>. \<^verbatim>\<open>bucket_copy = bucket[:]\<close> followed by
  \<^verbatim>\<open>rng.shuffle(bucket_copy)\<close> is one call of the shuffler on the value of the bucket.
  \<open>picked\<close> collects the choices of the first passes.\<close>

fun select_systems ::
  "('r, 'a RepoEntryMA_scheme) shuffler \<Rightarrow> ('a RepoEntryMA_scheme) buckets \<Rightarrow> alloc \<Rightarrow>
   string list \<Rightarrow> string set \<Rightarrow> ('a RepoEntryMA_scheme) list \<Rightarrow> 'r \<Rightarrow>
   ('a RepoEntryMA_scheme) list \<Rightarrow>
   ('a RepoEntryMA_scheme) list \<times> string set \<times> 'r \<times> ('a RepoEntryMA_scheme) list" where
  "select_systems shf buckets alloc [] used_authors selected rng picked =
     (selected, used_authors, rng, picked)"
| "select_systems shf buckets alloc (s # ss) used_authors selected rng picked =
     (let bucket = bucket_at buckets s;
          need = alloc_get alloc s 0
      in if need \<le> 0 \<or> bucket = [] then
           select_systems shf buckets alloc ss used_authors selected rng picked
         else
           (let (bucket_copy, rng') = shf rng bucket;
                (system_selected, used_authors', first) =
                  select_in_system bucket_copy need used_authors
            in select_systems shf buckets alloc ss used_authors'
                 (selected @ system_selected) rng' (picked @ first)))"

text \<open>The selection stage of \<^verbatim>\<open>main_author_diverse_stratified_sample\<close>, from the bucketing
  to the end of the loop over \<^verbatim>\<open>systems_sorted\<close>, for a target already clamped. It returns
  \<open>selected\<close>, \<open>used_authors\<close>, the state of \<^verbatim>\<open>rng\<close> and the choices of the first passes.\<close>

definition diverse_selection ::
  "(nat \<Rightarrow> nat \<Rightarrow> int \<Rightarrow> int) \<Rightarrow> ('r, 'a RepoEntryMA_scheme) shuffler \<Rightarrow>
   ('a RepoEntryMA_scheme) list \<Rightarrow> int \<Rightarrow> 'r \<Rightarrow>
   (('a RepoEntryMA_scheme) list \<times> string set \<times> 'r \<times> ('a RepoEntryMA_scheme) list) option" where
  "diverse_selection rnd shf entries clamped rng =
     (let buckets = make_buckets entries
      in case allocation rnd entries clamped of
           None \<Rightarrow> None
         | Some alloc \<Rightarrow>
             Some (select_systems shf buckets alloc (systems_sorted buckets) {} [] rng []))"

definition main_author_diverse_stratified_sample ::
  "(nat \<Rightarrow> nat \<Rightarrow> int \<Rightarrow> int) \<Rightarrow> ('r, 'a RepoEntryMA_scheme) shuffler \<Rightarrow>
   ('r, 'a RepoEntryMA_scheme) sampler \<Rightarrow> ('a RepoEntryMA_scheme) list \<Rightarrow> int \<Rightarrow> 'r \<Rightarrow>
   (error + (('a RepoEntryMA_scheme) list \<times> 'r \<times> notice list)) option" where
  "main_author_diverse_stratified_sample rnd shf smp entries target_size rng =
     (if target_size \<le> 0 then Some (Inl (ValueError ''target_size must be positive''))
      else if length entries = 0 then Some (Inl (ValueError ''no entries available for sampling''))
      else
        (let n_total = length entries;
             notices = (if target_size > int n_total then [Warn_reducing target_size n_total] else []);
             clamped = (if target_size > int n_total then int n_total else target_size)
         in case diverse_selection rnd shf entries clamped rng of
              None \<Rightarrow> None
            | Some (selected, used_authors, rng', picked) \<Rightarrow>
                Some (case trim_top_up smp entries clamped selected rng' of
                        Inl err \<Rightarrow> Inl err
                      | Inr (sample, rng'') \<Rightarrow> Inr (sample, rng'', notices))))"

section \<open>Concrete instances of the parameters\<close>

text \<open>Round half to even of the exact quotient \<open>len * target / n_total\<close>: the value of
  \<^verbatim>\<open>int(round((len / n_total) * target))\<close> wherever the floating-point product is not within
  rounding error of a tie.\<close>

definition exact_round :: "nat \<Rightarrow> nat \<Rightarrow> int \<Rightarrow> int" where
  "exact_round len n_total target_size =
     (let p = int len * target_size;
          q = p div int n_total;
          r = p mod int n_total
      in if 2 * r < int n_total then q
         else if 2 * r > int n_total then q + 1
         else if even q then q else q + 1)"

text \<open>A generator whose state is a counter: a shuffle rotates the list by the counter, a
  sample takes the first \<open>k\<close> elements of the rotated list, and each draw advances the
  counter. The seed is the initial counter.\<close>

definition rot_shuffle :: "(nat, 'e) shuffler" where
  "rot_shuffle rng xs = (rotate rng xs, Suc rng)"

definition rot_sample :: "(nat, 'e) sampler" where
  "rot_sample rng xs k = (take k (rotate rng xs), Suc rng)"

section \<open>Sample populations\<close>

definition entry :: "string \<Rightarrow> string \<Rightarrow> RepoEntry" where
  "entry i s =
     \<lparr>entry_id = i, upload_id = None, mainfile = None, system = s, structural_type = Some s\<rparr>"

definition entry_by :: "string \<Rightarrow> string \<Rightarrow> string option \<Rightarrow> RepoEntryMA" where
  "entry_by i s a =
     \<lparr>entry_id = i, upload_id = None, mainfile = None, system = s, structural_type = Some s,
      main_author = a\<rparr>"

text \<open>Three strata of one entry each.\<close>

definition three_strata :: "RepoEntry list" where
  "three_strata = [entry ''1'' ''a'', entry ''2'' ''b'', entry ''3'' ''c'']"

text \<open>Three entries of one stratum that share one author.\<close>

definition one_author :: "RepoEntryMA list" where
  "one_author =
     [entry_by ''1'' ''bulk'' (Some ''X''), entry_by ''2'' ''bulk'' (Some ''X''),
      entry_by ''3'' ''bulk'' (Some ''X'')]"

section \<open>Fetching the population (both scripts)\<close>

text \<open>
  A hit of \<^verbatim>\<open>/entries/query\<close>, with the structure that the docstring of
  \<^verbatim>\<open>from_api_result\<close> expects and the types that the dataclass annotates. \<open>None\<close> is a
  missing key (for the fields read with \<^verbatim>\<open>.get\<close>, also a JSON \<^verbatim>\<open>null\<close>). The author field
  is any JSON value.
\<close>

datatype json =
  JNull | JBool bool | JNum int | JStr string | JList "json list" | JDict "(string \<times> json) list"

datatype api_material = Material (mat_structural_type: "string option")

datatype api_results = Results (res_material: "api_material option")

record api_hit =
  hit_entry_id :: "string option"
  hit_upload_id :: "string option"
  hit_mainfile :: "string option"
  hit_main_author :: "json option"
  hit_results :: "api_results option"

text \<open>\<^verbatim>\<open>results = d.get("results") or {}\<close>, \<^verbatim>\<open>material = results.get("material") or {}\<close>,
  \<^verbatim>\<open>structural_type = material.get("structural_type")\<close>.\<close>

definition hit_structural_type :: "api_hit \<Rightarrow> string option" where
  "hit_structural_type d =
     (let results = (case hit_results d of None \<Rightarrow> Results None | Some r \<Rightarrow> r);
          material = (case res_material results of None \<Rightarrow> Material None | Some m \<Rightarrow> m)
      in mat_structural_type material)"

text \<open>\<^verbatim>\<open>system = structural_type if structural_type else "unknown"\<close>: the empty string is
  false as well.\<close>

definition system_of :: "string option \<Rightarrow> string" where
  "system_of st =
     (case st of None \<Rightarrow> ''unknown'' | Some s \<Rightarrow> if s = [] then ''unknown'' else s)"

text \<open>\<^verbatim>\<open>RepoEntry.from_api_result\<close> of \<^verbatim>\<open>script.py\<close>: \<^verbatim>\<open>d["entry_id"]\<close> raises
  \<^verbatim>\<open>KeyError\<close> when the key is missing.\<close>

definition from_api_result :: "api_hit \<Rightarrow> error + RepoEntry" where
  "from_api_result d =
     (case hit_entry_id d of
        None \<Rightarrow> Inl (KeyError ''entry_id'')
      | Some i \<Rightarrow>
          Inr \<lparr>entry_id = i, upload_id = hit_upload_id d, mainfile = hit_mainfile d,
               system = system_of (hit_structural_type d),
               structural_type = hit_structural_type d\<rparr>)"

text \<open>The normalisation of \<^verbatim>\<open>main_author\<close> in \<^verbatim>\<open>script_distinct_authors.py\<close>. \<^verbatim>\<open>str.strip\<close> and
  \<^verbatim>\<open>json.dumps(_, sort_keys=True)\<close> are the library's and enter as parameters.\<close>

definition normalize_main_author ::
  "(string \<Rightarrow> string) \<Rightarrow> (json \<Rightarrow> string) \<Rightarrow> json option \<Rightarrow> string option" where
  "normalize_main_author strip dumps raw_ma =
     (case raw_ma of
        Some (JStr s) \<Rightarrow> (if strip s = [] then None else Some (strip s))
      | Some (JDict kv) \<Rightarrow>
          (case map_of kv ''name'' of
             Some (JStr name) \<Rightarrow>
               (if strip name \<noteq> [] then Some (strip name)
                else (case map_of kv ''email'' of
                        Some (JStr email) \<Rightarrow>
                          (if strip email \<noteq> [] then Some (strip email)
                           else Some (dumps (JDict kv)))
                      | _ \<Rightarrow> Some (dumps (JDict kv))))
           | _ \<Rightarrow>
               (case map_of kv ''email'' of
                  Some (JStr email) \<Rightarrow>
                    (if strip email \<noteq> [] then Some (strip email)
                     else Some (dumps (JDict kv)))
                | _ \<Rightarrow> Some (dumps (JDict kv))))
      | _ \<Rightarrow> None)"

definition from_api_result_ma ::
  "(string \<Rightarrow> string) \<Rightarrow> (json \<Rightarrow> string) \<Rightarrow> api_hit \<Rightarrow> error + RepoEntryMA" where
  "from_api_result_ma strip dumps d =
     (case hit_entry_id d of
        None \<Rightarrow> Inl (KeyError ''entry_id'')
      | Some i \<Rightarrow>
          Inr \<lparr>entry_id = i, upload_id = hit_upload_id d, mainfile = hit_mainfile d,
               system = system_of (hit_structural_type d),
               structural_type = hit_structural_type d,
               main_author = normalize_main_author strip dumps (hit_main_author d)\<rparr>)"

text \<open>The loop \<^verbatim>\<open>for d in hits\<close>: \<^verbatim>\<open>except KeyError: continue\<close> catches a \<^verbatim>\<open>KeyError\<close> and
  nothing else.\<close>

fun collect_hits :: "(api_hit \<Rightarrow> error + 'e) \<Rightarrow> api_hit list \<Rightarrow> 'e list \<Rightarrow> error + 'e list" where
  "collect_hits conv [] all_entries = Inr all_entries"
| "collect_hits conv (d # hits) all_entries =
     (case conv d of
        Inr e \<Rightarrow> collect_hits conv hits (all_entries @ [e])
      | Inl (KeyError k) \<Rightarrow> collect_hits conv hits all_entries
      | Inl err \<Rightarrow> Inl err)"

text \<open>
  A response to \<^verbatim>\<open>requests.post\<close>: an HTTP error status, or the \<^verbatim>\<open>data\<close> of the body
  (\<^verbatim>\<open>[]\<close> when missing) with \<^verbatim>\<open>pagination.next_page_after_value\<close>. The server is a function
  of the number of the request and of the \<^verbatim>\<open>page_after_value\<close> sent. The loop
  \<^verbatim>\<open>while True\<close> ends only when a page is empty or names no next page, so not returning is
  the value \<open>None\<close>.
\<close>

datatype response = Http_error nat | Http_ok "api_hit list" "string option"

partial_function (option) fetch_loop ::
  "(api_hit \<Rightarrow> error + 'e) \<Rightarrow> (nat \<Rightarrow> string option \<Rightarrow> response) \<Rightarrow> nat \<Rightarrow> string option \<Rightarrow>
   'e list \<Rightarrow> (error + 'e list) option" where
  "fetch_loop conv server page page_after_value all_entries =
     (case server page page_after_value of
        Http_error code \<Rightarrow> Some (Inl (HTTPError code))
      | Http_ok hits next_val \<Rightarrow>
          if hits = [] then Some (Inr all_entries)
          else (case collect_hits conv hits all_entries of
                  Inl err \<Rightarrow> Some (Inl err)
                | Inr all_entries' \<Rightarrow>
                    (case next_val of
                       None \<Rightarrow> Some (Inr all_entries')
                     | Some v \<Rightarrow>
                         if v = [] then Some (Inr all_entries')
                         else fetch_loop conv server (Suc page) (Some v) all_entries')))"

definition fetch_all_orca_entries ::
  "(nat \<Rightarrow> string option \<Rightarrow> response) \<Rightarrow> (error + RepoEntry list) option" where
  "fetch_all_orca_entries server = fetch_loop from_api_result server 0 None []"

definition fetch_all_entries ::
  "(string \<Rightarrow> string) \<Rightarrow> (json \<Rightarrow> string) \<Rightarrow> (nat \<Rightarrow> string option \<Rightarrow> response) \<Rightarrow>
   (error + RepoEntryMA list) option" where
  "fetch_all_entries strip dumps server =
     fetch_loop (from_api_result_ma strip dumps) server 0 None []"

text \<open>Following the specification's words: the number of records of a page that miss the
  identity field.\<close>

definition malformed_count :: "api_hit list \<Rightarrow> nat" where
  "malformed_count hits = length (filter (\<lambda>d. hit_entry_id d = None) hits)"

definition good_hit :: api_hit where
  "good_hit =
     \<lparr>hit_entry_id = Some ''e1'', hit_upload_id = Some ''u1'', hit_mainfile = Some ''m.out'',
      hit_main_author = Some (JStr ''X''),
      hit_results = Some (Results (Some (Material (Some ''molecule''))))\<rparr>"

definition bad_hit :: api_hit where
  "bad_hit =
     \<lparr>hit_entry_id = None, hit_upload_id = Some ''u2'', hit_mainfile = None,
      hit_main_author = None, hit_results = None\<rparr>"

section \<open>The stratum order of the specification\<close>

text \<open>Following the specification's words, not the source: strata in descending size,
  ties broken by ascending lexical order of the label.\<close>

definition spec_stratum_order :: "'e buckets \<Rightarrow> string list \<Rightarrow> bool" where
  "spec_stratum_order buckets ss \<longleftrightarrow>
     sorted_wrt
       (\<lambda>a b. length (bucket_at buckets a) > length (bucket_at buckets b)
              \<or> (length (bucket_at buckets a) = length (bucket_at buckets b) \<and> a \<le> b))
       ss"

definition two_strata_b_a :: "RepoEntry list" where
  "two_strata_b_a = [entry ''1'' ''b'', entry ''2'' ''a'']"

definition small_then_big :: "RepoEntry list" where
  "small_then_big = [entry ''1'' ''small'', entry ''2'' ''big'', entry ''3'' ''big'']"

section \<open>The selection with the first pass removed\<close>

text \<open>
  \<^verbatim>\<open>main_author_diverse_stratified_sample\<close> with the lines of the first pass deleted:
  \<open>system_selected\<close> is empty when the second pass starts, so the second pass alone fills
  it, in the shuffled order. Everything else is the source's.
\<close>

fun select_systems_random ::
  "('r, 'e) shuffler \<Rightarrow> 'e buckets \<Rightarrow> alloc \<Rightarrow> string list \<Rightarrow> 'e list \<Rightarrow> 'r \<Rightarrow> 'e list \<times> 'r" where
  "select_systems_random shf buckets alloc [] selected rng = (selected, rng)"
| "select_systems_random shf buckets alloc (s # ss) selected rng =
     (let bucket = bucket_at buckets s;
          need = alloc_get alloc s 0
      in if need \<le> 0 \<or> bucket = [] then
           select_systems_random shf buckets alloc ss selected rng
         else
           (let (bucket_copy, rng') = shf rng bucket;
                system_selected = second_pass bucket_copy need []
            in select_systems_random shf buckets alloc ss (selected @ system_selected) rng'))"

definition random_selection ::
  "(nat \<Rightarrow> nat \<Rightarrow> int \<Rightarrow> int) \<Rightarrow> ('r, 'a RepoEntry_scheme) shuffler \<Rightarrow>
   ('a RepoEntry_scheme) list \<Rightarrow> int \<Rightarrow> 'r \<Rightarrow> (('a RepoEntry_scheme) list \<times> 'r) option" where
  "random_selection rnd shf entries clamped rng =
     (let buckets = make_buckets entries
      in case allocation rnd entries clamped of
           None \<Rightarrow> None
         | Some alloc \<Rightarrow>
             Some (select_systems_random shf buckets alloc (systems_sorted buckets) [] rng))"

definition random_stratified_sample ::
  "(nat \<Rightarrow> nat \<Rightarrow> int \<Rightarrow> int) \<Rightarrow> ('r, 'a RepoEntry_scheme) shuffler \<Rightarrow>
   ('r, 'a RepoEntry_scheme) sampler \<Rightarrow> ('a RepoEntry_scheme) list \<Rightarrow> int \<Rightarrow> 'r \<Rightarrow>
   (error + (('a RepoEntry_scheme) list \<times> 'r \<times> notice list)) option" where
  "random_stratified_sample rnd shf smp entries target_size rng =
     (if target_size \<le> 0 then Some (Inl (ValueError ''target_size must be positive''))
      else if length entries = 0 then Some (Inl (ValueError ''no entries available for sampling''))
      else
        (let n_total = length entries;
             notices = (if target_size > int n_total then [Warn_reducing target_size n_total] else []);
             clamped = (if target_size > int n_total then int n_total else target_size)
         in case random_selection rnd shf entries clamped rng of
              None \<Rightarrow> None
            | Some (selected, rng') \<Rightarrow>
                Some (case trim_top_up smp entries clamped selected rng' of
                        Inl err \<Rightarrow> Inl err
                      | Inr (sample, rng'') \<Rightarrow> Inr (sample, rng'', notices))))"

text \<open>The number that \<^verbatim>\<open>main\<close> prints as the sample's distinct \<^verbatim>\<open>main_author\<close>s: the size
  of the set of the authors that are not \<^verbatim>\<open>None\<close>.\<close>

definition distinct_authors :: "('a RepoEntryMA_scheme) list \<Rightarrow> nat" where
  "distinct_authors sample = card (Option.these (main_author ` set sample))"

text \<open>Three strata of two entries each; the first has one author twice.\<close>

definition six_entries :: "RepoEntryMA list" where
  "six_entries =
     [entry_by ''1'' ''s1'' (Some ''X''), entry_by ''2'' ''s1'' (Some ''X''),
      entry_by ''3'' ''s2'' (Some ''X''), entry_by ''4'' ''s2'' (Some ''Y''),
      entry_by ''5'' ''s3'' (Some ''Y''), entry_by ''6'' ''s3'' (Some ''Y'')]"

section \<open>The list objects of the sampling functions\<close>

text \<open>
  For the statements about what the sampling functions update in place, the lists of
  the source are objects in a store: \<open>cells\<close> maps an address to the value of the list
  that lives there, and the addresses below \<open>next_addr\<close> are the allocated ones. The source
  never assigns to an attribute of an entry, so the entries themselves are values.
  \<open>new_list\<close> is the creation of a list (a literal, a slice copy, a comprehension, the
  result of \<^verbatim>\<open>rng.sample\<close>); \<open>assign_list\<close> is an update in place of the list at an
  address (\<^verbatim>\<open>append\<close>, \<^verbatim>\<open>extend\<close>, \<^verbatim>\<open>rng.shuffle\<close>). A loop \<^verbatim>\<open>for x in xs\<close> runs over the
  value that \<open>xs\<close> has when the loop starts.
\<close>

record 'e store =
  cells :: "nat \<Rightarrow> 'e list"
  next_addr :: nat

definition new_list :: "'e list \<Rightarrow> 'e store \<Rightarrow> nat \<times> 'e store" where
  "new_list xs h =
     (next_addr h, \<lparr>cells = (cells h)(next_addr h := xs), next_addr = Suc (next_addr h)\<rparr>)"

definition assign_list :: "nat \<Rightarrow> 'e list \<Rightarrow> 'e store \<Rightarrow> 'e store" where
  "assign_list a xs h = h\<lparr>cells := (cells h)(a := xs)\<rparr>"

text \<open>The store \<open>h'\<close> has every list that \<open>h\<close> has, with the same value.\<close>

definition unchanged :: "'e store \<Rightarrow> 'e store \<Rightarrow> bool" where
  "unchanged h h' \<longleftrightarrow> next_addr h \<le> next_addr h' \<and> (\<forall>a < next_addr h. cells h' a = cells h a)"

text \<open>The dict \<^verbatim>\<open>buckets\<close> maps a system to the address of its list; \<open>deref\<close> reads the
  lists.\<close>

definition deref :: "(string \<times> nat) list \<Rightarrow> 'e store \<Rightarrow> 'e buckets" where
  "deref buckets h = map (\<lambda>(s, a). (s, cells h a)) buckets"

text \<open>\<^verbatim>\<open>buckets.setdefault(e.system, []).append(e)\<close>\<close>

definition setdefault_append_h ::
  "string \<Rightarrow> 'e \<Rightarrow> (string \<times> nat) list \<times> 'e store \<Rightarrow> (string \<times> nat) list \<times> 'e store" where
  "setdefault_append_h s e st =
     (case st of (buckets, h) \<Rightarrow>
       (case map_of buckets s of
          None \<Rightarrow>
            (case new_list [] h of
               (a, h') \<Rightarrow> (buckets @ [(s, a)], assign_list a (cells h' a @ [e]) h'))
        | Some a \<Rightarrow> (buckets, assign_list a (cells h a @ [e]) h)))"

definition make_buckets_h ::
  "nat \<Rightarrow> ('a RepoEntry_scheme) store \<Rightarrow> (string \<times> nat) list \<times> ('a RepoEntry_scheme) store" where
  "make_buckets_h entries h =
     fold (\<lambda>e st. setdefault_append_h (system e) e st) (cells h entries) ([], h)"

text \<open>The drawing loop of \<^verbatim>\<open>script.py\<close>: \<^verbatim>\<open>selected.extend(rng.sample(bucket, k))\<close>.\<close>

fun draw_samples_h ::
  "('r, 'e) sampler \<Rightarrow> alloc \<Rightarrow> (string \<times> nat) list \<Rightarrow> nat \<Rightarrow> 'r \<Rightarrow> 'e store \<Rightarrow>
   error + ('r \<times> 'e store)" where
  "draw_samples_h smp alloc [] selected rng h = Inr (rng, h)"
| "draw_samples_h smp alloc ((s, bucket) # items) selected rng h =
     (let k = min (alloc_get alloc s 0) (int (length (cells h bucket))) in
      if k \<le> 0 then draw_samples_h smp alloc items selected rng h
      else (case py_sample smp rng (cells h bucket) k of
              Inl err \<Rightarrow> Inl err
            | Inr (drawn, rng') \<Rightarrow>
                (case new_list drawn h of
                   (d, h1) \<Rightarrow>
                     draw_samples_h smp alloc items selected rng'
                       (assign_list selected (cells h1 selected @ cells h1 d) h1))))"

text \<open>The global trim and top-up. \<^verbatim>\<open>selected = rng.sample(selected, target_size)\<close> binds
  the variable to a new list; \<^verbatim>\<open>selected.extend(\<dots>)\<close> updates the list in place.\<close>

definition trim_top_up_h ::
  "('r, 'a RepoEntry_scheme) sampler \<Rightarrow> nat \<Rightarrow> int \<Rightarrow> nat \<Rightarrow> 'r \<Rightarrow> ('a RepoEntry_scheme) store \<Rightarrow>
   error + (nat \<times> 'r \<times> ('a RepoEntry_scheme) store)" where
  "trim_top_up_h smp entries target_size selected rng h =
     (if int (length (cells h selected)) > target_size then
        (case py_sample smp rng (cells h selected) target_size of
           Inl err \<Rightarrow> Inl err
         | Inr (drawn, rng') \<Rightarrow> (case new_list drawn h of (d, h1) \<Rightarrow> Inr (d, rng', h1)))
      else if int (length (cells h selected)) < target_size then
        (case new_list
                (filter (\<lambda>e. entry_id e \<notin> set (map entry_id (cells h selected))) (cells h entries))
                h of
           (remaining_pool, h1) \<Rightarrow>
             (let k_extra = min (target_size - int (length (cells h1 selected)))
                              (int (length (cells h1 remaining_pool)))
              in if k_extra > 0 then
                   (case py_sample smp rng (cells h1 remaining_pool) k_extra of
                      Inl err \<Rightarrow> Inl err
                    | Inr (drawn, rng') \<Rightarrow>
                        (case new_list drawn h1 of
                           (d, h2) \<Rightarrow>
                             Inr (selected, rng',
                                  assign_list selected (cells h2 selected @ cells h2 d) h2)))
                 else Inr (selected, rng, h1)))
      else Inr (selected, rng, h))"

text \<open>\<^verbatim>\<open>stratified_sample\<close> on the store: \<open>entries\<close> is the address of the population, the
  result holds the address of the returned list and the final store.\<close>

definition stratified_sample_h ::
  "(nat \<Rightarrow> nat \<Rightarrow> int \<Rightarrow> int) \<Rightarrow> ('r, 'a RepoEntry_scheme) sampler \<Rightarrow> nat \<Rightarrow> int \<Rightarrow> 'r \<Rightarrow>
   ('a RepoEntry_scheme) store \<Rightarrow>
   (error + (nat \<times> 'r \<times> notice list \<times> ('a RepoEntry_scheme) store)) option" where
  "stratified_sample_h rnd smp entries target_size rng h =
     (if target_size \<le> 0 then Some (Inl (ValueError ''target_size must be positive''))
      else if length (cells h entries) = 0
      then Some (Inl (ValueError ''no entries available for sampling''))
      else
        (let n_total = length (cells h entries);
             notices = (if target_size > int n_total then [Warn_reducing target_size n_total] else []);
             clamped = (if target_size > int n_total then int n_total else target_size)
         in case make_buckets_h entries h of
              (buckets, h1) \<Rightarrow>
                (case adjust_alloc (initial_alloc rnd (deref buckets h1) n_total clamped)
                        (systems_sorted (deref buckets h1)) clamped of
                   None \<Rightarrow> None
                 | Some alloc \<Rightarrow>
                     (case new_list [] h1 of
                        (selected, h2) \<Rightarrow>
                          Some (case draw_samples_h smp alloc buckets selected rng h2 of
                                  Inl err \<Rightarrow> Inl err
                                | Inr (rng', h3) \<Rightarrow>
                                    (case trim_top_up_h smp entries clamped selected rng' h3 of
                                       Inl err \<Rightarrow> Inl err
                                     | Inr (sample, rng'', h4) \<Rightarrow>
                                         Inr (sample, rng'', notices, h4)))))))"

text \<open>The loop \<^verbatim>\<open>for system in systems_sorted\<close> of \<^verbatim>\<open>script_distinct_authors.py\<close>:
  \<^verbatim>\<open>bucket_copy = bucket[:]\<close> creates a list, \<^verbatim>\<open>rng.shuffle(bucket_copy)\<close> updates it in place,
  \<^verbatim>\<open>system_selected = []\<close> creates a list whose appends are the two passes, and
  \<^verbatim>\<open>selected.extend(system_selected)\<close> updates \<open>selected\<close> in place. The systems are
  the keys of \<^verbatim>\<open>buckets\<close>, so \<^verbatim>\<open>buckets[system]\<close> finds its list; a system without one is
  passed over.\<close>

fun select_systems_h ::
  "('r, 'a RepoEntryMA_scheme) shuffler \<Rightarrow> (string \<times> nat) list \<Rightarrow> alloc \<Rightarrow> string list \<Rightarrow>
   string set \<Rightarrow> nat \<Rightarrow> 'r \<Rightarrow> ('a RepoEntryMA_scheme) store \<Rightarrow>
   string set \<times> 'r \<times> ('a RepoEntryMA_scheme) store" where
  "select_systems_h shf buckets alloc [] used_authors selected rng h = (used_authors, rng, h)"
| "select_systems_h shf buckets alloc (s # ss) used_authors selected rng h =
     (case map_of buckets s of
        None \<Rightarrow> select_systems_h shf buckets alloc ss used_authors selected rng h
      | Some bucket \<Rightarrow>
          (let need = alloc_get alloc s 0 in
           if need \<le> 0 \<or> cells h bucket = [] then
             select_systems_h shf buckets alloc ss used_authors selected rng h
           else
             (case new_list (cells h bucket) h of
                (bucket_copy, h1) \<Rightarrow>
                  (case shf rng (cells h1 bucket_copy) of
                     (shuffled, rng') \<Rightarrow>
                       (case new_list [] (assign_list bucket_copy shuffled h1) of
                          (system_selected, h3) \<Rightarrow>
                            (case first_pass (cells h3 bucket_copy) need
                                    (cells h3 system_selected) used_authors of
                               (first, used_authors') \<Rightarrow>
                                 (let h4 = assign_list system_selected first h3;
                                      h5 = (if int (length (cells h4 system_selected)) < need
                                            then assign_list system_selected
                                                   (second_pass (cells h4 bucket_copy) need
                                                      (cells h4 system_selected)) h4
                                            else h4);
                                      h6 = assign_list selected
                                             (cells h5 selected @ cells h5 system_selected) h5
                                  in select_systems_h shf buckets alloc ss used_authors'
                                       selected rng' h6)))))))"

definition main_author_diverse_stratified_sample_h ::
  "(nat \<Rightarrow> nat \<Rightarrow> int \<Rightarrow> int) \<Rightarrow> ('r, 'a RepoEntryMA_scheme) shuffler \<Rightarrow>
   ('r, 'a RepoEntryMA_scheme) sampler \<Rightarrow> nat \<Rightarrow> int \<Rightarrow> 'r \<Rightarrow> ('a RepoEntryMA_scheme) store \<Rightarrow>
   (error + (nat \<times> 'r \<times> notice list \<times> ('a RepoEntryMA_scheme) store)) option" where
  "main_author_diverse_stratified_sample_h rnd shf smp entries target_size rng h =
     (if target_size \<le> 0 then Some (Inl (ValueError ''target_size must be positive''))
      else if length (cells h entries) = 0
      then Some (Inl (ValueError ''no entries available for sampling''))
      else
        (let n_total = length (cells h entries);
             notices = (if target_size > int n_total then [Warn_reducing target_size n_total] else []);
             clamped = (if target_size > int n_total then int n_total else target_size)
         in case make_buckets_h entries h of
              (buckets, h1) \<Rightarrow>
                (case adjust_alloc (initial_alloc rnd (deref buckets h1) n_total clamped)
                        (systems_sorted (deref buckets h1)) clamped of
                   None \<Rightarrow> None
                 | Some alloc \<Rightarrow>
                     (case new_list [] h1 of
                        (selected, h2) \<Rightarrow>
                          (case select_systems_h shf buckets alloc
                                  (systems_sorted (deref buckets h1)) {} selected rng h2 of
                             (used_authors, rng', h3) \<Rightarrow>
                               Some (case trim_top_up_h smp entries clamped selected rng' h3 of
                                       Inl err \<Rightarrow> Inl err
                                     | Inr (sample, rng'', h4) \<Rightarrow>
                                         Inr (sample, rng'', notices, h4)))))))"

text \<open>A store that holds one population, at address 0.\<close>

definition store_of :: "'e list \<Rightarrow> 'e store" where
  "store_of entries = \<lparr>cells = (\<lambda>a. []) (0 := entries), next_addr = 1\<rparr>"

text \<open>A store that holds another list at address 0 and the population at address 1.\<close>

definition store_after :: "'e list \<Rightarrow> 'e list \<Rightarrow> 'e store" where
  "store_after other entries = \<lparr>cells = (\<lambda>a. []) (0 := other, 1 := entries), next_addr = 2\<rparr>"

section \<open>Buckets and association lists\<close>

lemma make_buckets_snoc:
  "make_buckets (es @ [e]) = setdefault_append (make_buckets es) (system e) e"
  by (simp add: make_buckets_def)

lemma make_buckets_Nil: "make_buckets [] = []"
  by (simp add: make_buckets_def)

lemma map_of_make_buckets:
  "map_of (make_buckets es) s =
     (if s \<in> system ` set es then Some (filter (\<lambda>e. system e = s) es) else None)"
proof (induction es rule: rev_induct)
  case Nil
  then show ?case by (simp add: make_buckets_Nil)
next
  case (snoc e es)
  then show ?case
    by (auto simp: make_buckets_snoc setdefault_append_def update_conv' filter_empty_conv empty_filter_conv image_iff
          simp del: not_None_eq) metis+
qed

lemma distinct_make_buckets: "distinct (map fst (make_buckets es))"
proof (induction es rule: rev_induct)
  case Nil
  then show ?case by (simp add: make_buckets_Nil)
next
  case (snoc e es)
  then show ?case
    by (simp add: make_buckets_snoc setdefault_append_def distinct_update)
qed

lemma keys_make_buckets: "set (map fst (make_buckets es)) = system ` set es"
proof -
  have "dom (map_of (make_buckets es)) = system ` set es"
    by (auto simp: map_of_make_buckets dom_def)
  then show ?thesis by (simp add: dom_map_of_conv_image_fst)
qed

lemma make_buckets_member:
  "(s, b) \<in> set (make_buckets es) \<Longrightarrow> s \<in> system ` set es \<and> b = filter (\<lambda>e. system e = s) es"
proof -
  assume "(s, b) \<in> set (make_buckets es)"
  then have "map_of (make_buckets es) s = Some b"
    using distinct_make_buckets [of es] by simp
  then show ?thesis by (auto simp: map_of_make_buckets split: if_splits)
qed

lemma make_buckets_nonempty: "(s, b) \<in> set (make_buckets es) \<Longrightarrow> b \<noteq> []"
  by (drule make_buckets_member) (auto simp: filter_empty_conv)

lemma update_keys_present:
  "k \<in> set (map fst al) \<Longrightarrow> map fst (AList.update k v al) = map fst al"
  by (induction al) auto

lemma update_values_subset:
  "set (map snd (AList.update k v al)) \<subseteq> insert v (set (map snd al))"
  by (induction al) auto

lemma sum_update:
  "distinct (map fst al) \<Longrightarrow> k \<in> set (map fst al) \<Longrightarrow>
     sum_list (map snd (AList.update k v al)) = sum_list (map snd al) - alloc_get al k 0 + v"
  by (induction al) (auto simp: alloc_get_def rev_image_eqI)

lemma alloc_get_update: "alloc_get (AList.update k v al) k' d = (if k' = k then v else alloc_get al k' d)"
  by (simp add: alloc_get_def update_conv')

lemma alloc_get_mem:
  "k \<in> set (map fst al) \<Longrightarrow> alloc_get al k d \<in> set (map snd al)"
  by (induction al) (auto simp: alloc_get_def)

lemma initial_alloc_keys: "map fst (initial_alloc rnd buckets n t) = map fst buckets"
  by (simp add: initial_alloc_def case_prod_beta comp_def)

lemma initial_alloc_ge1:
  "\<forall>(s, b) \<in> set buckets. b \<noteq> [] \<Longrightarrow> \<forall>v \<in> set (map snd (initial_alloc rnd buckets n t)). 1 \<le> v"
  by (auto simp: initial_alloc_def Let_def)

section \<open>The allocation loops\<close>

lemma update_values_ge:
  "\<forall>w \<in> set (map snd al). (c::int) \<le> w \<Longrightarrow> c \<le> v \<Longrightarrow>
     \<forall>w \<in> set (map snd (AList.update k v al)). c \<le> w"
  by (induction al) auto

lemma add_remaining_props:
  assumes "ss \<noteq> []" "set ss \<subseteq> set (map fst alloc)" "distinct (map fst alloc)"
    "\<forall>v \<in> set (map snd alloc). 1 \<le> v"
  shows "map fst (add_remaining alloc ss r idx) = map fst alloc
       \<and> (\<forall>v \<in> set (map snd (add_remaining alloc ss r idx)). 1 \<le> v)
       \<and> sum_list (map snd (add_remaining alloc ss r idx)) = sum_list (map snd alloc) + int r"
  using assms
proof (induction r arbitrary: alloc idx)
  case 0
  then show ?case by simp
next
  case (Suc r)
  let ?s = "ss ! (idx mod length ss)"
  let ?a = "AList.update ?s (alloc_get alloc ?s 0 + 1) alloc"
  have s: "?s \<in> set (map fst alloc)"
    using Suc.prems(1,2) by (meson length_greater_0_conv mod_less_divisor nth_mem subsetD)
  have k: "map fst ?a = map fst alloc" using s by (rule update_keys_present)
  have "1 \<le> alloc_get alloc ?s 0" using alloc_get_mem [OF s] Suc.prems(4) by blast
  then have v: "\<forall>v \<in> set (map snd ?a). 1 \<le> v"
    using Suc.prems(4) by (intro update_values_ge) simp_all
  have sm: "sum_list (map snd ?a) = sum_list (map snd alloc) + 1"
    using sum_update [OF Suc.prems(3) s] by simp
  have "map fst (add_remaining ?a ss r (Suc idx)) = map fst ?a
       \<and> (\<forall>v \<in> set (map snd (add_remaining ?a ss r (Suc idx))). 1 \<le> v)
       \<and> sum_list (map snd (add_remaining ?a ss r (Suc idx))) = sum_list (map snd ?a) + int r"
    using Suc.prems(1,2,3) k v by (intro Suc.IH) simp_all
  then show ?case using k sm by simp
qed

lemma list_ex_gt1:
  "1 < alloc_get alloc k 0 \<Longrightarrow> list_ex (\<lambda>v. 1 < v) (map snd alloc)"
  by (induction alloc) (auto simp: alloc_get_def split: if_splits)

lemma remove_surplus_skip:
  assumes "0 < surplus" "1 < alloc_get alloc (ss ! ((idx + d) mod length ss)) 0"
  shows "\<exists>j. 1 < alloc_get alloc (ss ! ((idx + j) mod length ss)) 0
           \<and> remove_surplus alloc ss surplus idx =
               remove_surplus
                 (AList.update (ss ! ((idx + j) mod length ss))
                    (alloc_get alloc (ss ! ((idx + j) mod length ss)) 0 - 1) alloc)
                 ss (surplus - 1) (Suc (idx + j))"
  using assms
proof (induction d arbitrary: idx)
  case 0
  have ex: "list_ex (\<lambda>v. 1 < v) (map snd alloc)" using 0(2) by (rule list_ex_gt1)
  show ?case
    using 0 ex by (intro exI [of _ 0]) (subst remove_surplus.simps, simp)
next
  case (Suc d)
  have ex: "list_ex (\<lambda>v. 1 < v) (map snd alloc)" using Suc.prems(2) by (rule list_ex_gt1)
  show ?case
  proof (cases "1 < alloc_get alloc (ss ! (idx mod length ss)) 0")
    case True
    then show ?thesis
      using Suc.prems(1) ex by (intro exI [of _ 0]) (subst remove_surplus.simps, simp)
  next
    case False
    have "\<exists>j. 1 < alloc_get alloc (ss ! ((Suc idx + j) mod length ss)) 0
           \<and> remove_surplus alloc ss surplus (Suc idx) =
               remove_surplus
                 (AList.update (ss ! ((Suc idx + j) mod length ss))
                    (alloc_get alloc (ss ! ((Suc idx + j) mod length ss)) 0 - 1) alloc)
                 ss (surplus - 1) (Suc (Suc idx + j))"
      using Suc.prems by (intro Suc.IH) simp_all
    then obtain j where j: "1 < alloc_get alloc (ss ! ((Suc idx + j) mod length ss)) 0"
      "remove_surplus alloc ss surplus (Suc idx) =
               remove_surplus
                 (AList.update (ss ! ((Suc idx + j) mod length ss))
                    (alloc_get alloc (ss ! ((Suc idx + j) mod length ss)) 0 - 1) alloc)
                 ss (surplus - 1) (Suc (Suc idx + j))" by blast
    have "remove_surplus alloc ss surplus idx = remove_surplus alloc ss surplus (Suc idx)"
      using False Suc.prems(1) ex by (subst remove_surplus.simps) simp
    with j show ?thesis by (intro exI [of _ "Suc j"]) simp
  qed
qed

lemma cyclic_reach:
  assumes "i < n"
  shows "\<exists>d. (idx + d) mod n = (i::nat)"
proof -
  have "(idx + (i + (n - idx mod n))) mod n = i"
  proof -
    have "idx mod n < n" using assms by simp
    then have "idx + (i + (n - idx mod n)) = (idx - idx mod n) + n + i"
      by (simp add: mod_le_divisor)
    moreover have "(idx - idx mod n) mod n = 0" by (simp add: minus_mod_eq_mult_div)
    ultimately show ?thesis using assms
      by (metis add.commute add_cancel_right_right mod_add_left_eq mod_add_self1 mod_less)
  qed
  then show ?thesis by blast
qed

lemma sum_ge_length:
  "\<forall>v \<in> set (map snd (al :: alloc)). 1 \<le> v \<Longrightarrow> int (length al) \<le> sum_list (map snd al)"
  by (induction al) auto

lemma sum_all_one:
  "\<forall>v \<in> set (map snd (al :: alloc)). 1 \<le> v \<Longrightarrow> \<not> list_ex (\<lambda>v. 1 < v) (map snd al) \<Longrightarrow>
     sum_list (map snd al) = int (length al)"
  by (induction al) (auto simp: list_ex_iff)

lemma alloc_get_of_mem:
  "distinct (map fst al) \<Longrightarrow> (k, v) \<in> set al \<Longrightarrow> alloc_get al k d = v"
  by (simp add: alloc_get_def)

lemma remove_surplus_result:
  assumes "distinct (map fst alloc)" "set (map fst alloc) = set ss"
    "\<forall>v \<in> set (map snd alloc). 1 \<le> v"
  shows "\<exists>alloc'. remove_surplus alloc ss (int n) idx = Some alloc'
           \<and> map fst alloc' = map fst alloc
           \<and> (\<forall>v \<in> set (map snd alloc'). 1 \<le> v)
           \<and> sum_list (map snd alloc') = max (sum_list (map snd alloc) - int n) (int (length alloc))"
  using assms
proof (induction n arbitrary: alloc idx)
  case 0
  have "remove_surplus alloc ss (int 0) idx = Some alloc"
    by (subst remove_surplus.simps) simp
  then show ?case using 0(3) sum_ge_length [of alloc] by simp
next
  case (Suc n)
  show ?case
  proof (cases "list_ex (\<lambda>v. 1 < v) (map snd alloc)")
    case False
    have "remove_surplus alloc ss (int (Suc n)) idx = Some alloc"
      using False by (subst remove_surplus.simps) simp
    then show ?thesis using Suc.prems(3) sum_all_one [OF Suc.prems(3) False] by simp
  next
    case True
    then obtain k v where kv: "(k, v) \<in> set alloc" "1 < v"
      by (auto simp: list_ex_iff)
    then have "k \<in> set ss" using Suc.prems(2) by force
    then obtain i where i: "i < length ss" "ss ! i = k" by (auto simp: in_set_conv_nth)
    obtain d where d: "(idx + d) mod length ss = i" using cyclic_reach [OF i(1)] by blast
    have "1 < alloc_get alloc (ss ! ((idx + d) mod length ss)) 0"
      using kv i d alloc_get_of_mem [OF Suc.prems(1) kv(1)] by simp
    from remove_surplus_skip [OF _ this, of "int (Suc n)"]
    obtain j where j: "1 < alloc_get alloc (ss ! ((idx + j) mod length ss)) 0"
      "remove_surplus alloc ss (int (Suc n)) idx =
         remove_surplus
           (AList.update (ss ! ((idx + j) mod length ss))
              (alloc_get alloc (ss ! ((idx + j) mod length ss)) 0 - 1) alloc)
           ss (int (Suc n) - 1) (Suc (idx + j))" by auto
    let ?s = "ss ! ((idx + j) mod length ss)"
    let ?a = "AList.update ?s (alloc_get alloc ?s 0 - 1) alloc"
    have "ss \<noteq> []" using i(1) by auto
    then have s: "?s \<in> set (map fst alloc)"
      using Suc.prems(2) by (metis length_greater_0_conv mod_less_divisor nth_mem)
    have k: "map fst ?a = map fst alloc" using s by (rule update_keys_present)
    have v: "\<forall>v \<in> set (map snd ?a). 1 \<le> v"
      using Suc.prems(3) j(1) by (intro update_values_ge) simp_all
    have sm: "sum_list (map snd ?a) = sum_list (map snd alloc) - 1"
      using sum_update [OF Suc.prems(1) s] by simp
    have len: "length ?a = length alloc" using k by (metis length_map)
    have "\<exists>alloc'. remove_surplus ?a ss (int n) (Suc (idx + j)) = Some alloc'
           \<and> map fst alloc' = map fst ?a
           \<and> (\<forall>v \<in> set (map snd alloc'). 1 \<le> v)
           \<and> sum_list (map snd alloc') = max (sum_list (map snd ?a) - int n) (int (length ?a))"
      using Suc.prems(1,2) k v by (intro Suc.IH) simp_all
    then show ?thesis using j(2) k sm len by (auto simp: algebra_simps)
  qed
qed

section \<open>Drawing and sub-multisets\<close>

lemma py_sample_Inr:
  "0 \<le> k \<Longrightarrow> k \<le> int (length xs) \<Longrightarrow> py_sample smp rng xs k = Inr (smp rng xs (nat k))"
  by (simp add: py_sample_def)

lemma py_sample_props:
  assumes "sample_contract smp" "0 \<le> k" "k \<le> int (length xs)"
    "py_sample smp rng xs k = Inr (ys, rng')"
  shows "length ys = nat k \<and> mset ys \<subseteq># mset xs"
proof -
  have "ys = fst (smp rng xs (nat k))"
    using assms(2,3,4) by (simp add: py_sample_Inr)
  moreover have "nat k \<le> length xs" using assms(2,3) by simp
  ultimately show ?thesis using assms(1) by (simp add: sample_contract_def)
qed

lemma draw_samples_returns:
  "\<exists>sel rng'. draw_samples smp alloc items selected rng = Inr (sel, rng')"
proof (induction items arbitrary: selected rng)
  case Nil
  then show ?case by simp
next
  case (Cons p items)
  obtain s bucket where p: "p = (s, bucket)" by (cases p)
  show ?case
  proof (cases "min (alloc_get alloc s 0) (int (length bucket)) \<le> 0")
    case True
    then show ?thesis using Cons.IH p by (simp add: Let_def)
  next
    case False
    then have "py_sample smp rng bucket (min (alloc_get alloc s 0) (int (length bucket)))
      = Inr (smp rng bucket (nat (min (alloc_get alloc s 0) (int (length bucket)))))"
      by (intro py_sample_Inr) simp_all
    then show ?thesis using False Cons.IH p by (simp add: Let_def split: prod.splits)
  qed
qed

lemma draw_samples_subset:
  assumes "sample_contract smp"
  shows "draw_samples smp alloc items selected rng = Inr (sel, rng') \<Longrightarrow>
     mset sel \<subseteq># mset selected + mset (concat (map snd items))"
proof (induction items arbitrary: selected rng)
  case Nil
  then show ?case by simp
next
  case (Cons p items)
  obtain s bucket where p: "p = (s, bucket)" by (cases p)
  let ?k = "min (alloc_get alloc s 0) (int (length bucket))"
  show ?case
  proof (cases "?k \<le> 0")
    case True
    then have "draw_samples smp alloc items selected rng = Inr (sel, rng')"
      using Cons.prems p by (simp add: Let_def)
    from Cons.IH [OF this] show ?thesis
      using p mset_subset_eq_add_right [of "mset selected + mset (concat (map snd items))" "mset bucket"]
      by (auto simp: ac_simps intro: subset_mset.order_trans)
  next
    case False
    obtain ys r1 where ys: "py_sample smp rng bucket ?k = Inr (ys, r1)"
      using False by (simp add: py_sample_Inr prod_eq_iff)
    have sub: "mset ys \<subseteq># mset bucket"
      using py_sample_props [OF assms _ _ ys] False by simp
    have "draw_samples smp alloc items (selected @ ys) r1 = Inr (sel, rng')"
      using Cons.prems p False ys by (simp add: Let_def)
    from Cons.IH [OF this] have "mset sel \<subseteq># mset selected + mset ys + mset (concat (map snd items))"
      by simp
    also have "\<dots> \<subseteq># mset selected + mset bucket + mset (concat (map snd items))"
      using sub by (simp add: subset_mset.add_mono)
    finally show ?thesis using p by (simp add: add.assoc)
  qed
qed

lemma mset_concat_update:
  "mset (concat (map snd (AList.update k (bucket_at al k @ [e]) al)))
     = mset (concat (map snd al)) + {#e#}"
  by (induction al) (auto simp: bucket_at_def)

lemma mset_concat_make_buckets: "mset (concat (map snd (make_buckets es))) = mset es"
proof (induction es rule: rev_induct)
  case Nil
  then show ?case by (simp add: make_buckets_Nil)
next
  case (snoc e es)
  have "setdefault_append (make_buckets es) (system e) e
      = AList.update (system e) (bucket_at (make_buckets es) (system e) @ [e]) (make_buckets es)"
    by (simp add: setdefault_append_def bucket_at_def)
  then show ?case using snoc by (simp add: make_buckets_snoc mset_concat_update)
qed

lemma submset_distinct:
  "mset xs \<subseteq># mset ys \<Longrightarrow> distinct ys \<Longrightarrow> distinct xs"
proof (induction xs arbitrary: ys)
  case Nil
  then show ?case by simp
next
  case (Cons x xs)
  have x: "x \<in> set ys" using Cons.prems(1) by (metis list.set_intros(1) mset_subset_eqD set_mset_mset)
  have sub: "mset xs \<subseteq># mset (remove1 x ys)"
    using Cons.prems(1) x by (simp add: insert_subset_eq_iff)
  have d: "distinct (remove1 x ys)" using Cons.prems(2) by simp
  have "distinct xs" using sub d by (rule Cons.IH)
  moreover have "set xs \<subseteq> set (remove1 x ys)"
    using set_mset_mono [OF sub] unfolding set_mset_mset .
  ultimately show ?case using Cons.prems(2) by auto
qed

lemma submset_distinct_map:
  assumes "mset xs \<subseteq># mset ys" "distinct (map f ys)"
  shows "distinct (map f xs)"
proof -
  have "mset (map f xs) \<subseteq># mset (map f ys)"
    using assms(1) by (simp add: image_mset_subseteq_mono)
  then show ?thesis using assms(2) by (rule submset_distinct)
qed

section \<open>Trim and top-up\<close>

lemma remaining_pool_mset:
  assumes "distinct (map entry_id entries)" "mset selected \<subseteq># mset entries"
  shows "mset selected + mset (filter (\<lambda>e. entry_id e \<notin> set (map entry_id selected)) entries)
           = mset entries"
proof -
  let ?P = "\<lambda>e. entry_id e \<in> set (map entry_id selected)"
  have inj: "inj_on entry_id (set entries)" and de: "distinct entries"
    using assms(1) by (simp_all add: distinct_map)
  have ds: "distinct selected" using assms(2) de by (rule submset_distinct)
  have sub: "set selected \<subseteq> set entries"
    using set_mset_mono [OF assms(2)] unfolding set_mset_mset .
  have "set (filter ?P entries) = set selected"
  proof
    show "set (filter ?P entries) \<subseteq> set selected"
    proof
      fix e assume "e \<in> set (filter ?P entries)"
      then obtain s where "e \<in> set entries" "s \<in> set selected" "entry_id e = entry_id s" by auto
      then show "e \<in> set selected" using inj sub by (metis inj_onD subsetD)
    qed
    show "set selected \<subseteq> set (filter ?P entries)" using sub by auto
  qed
  moreover have "distinct (filter ?P entries)" using de by simp
  ultimately have "mset (filter ?P entries) = mset selected"
    using ds set_eq_iff_mset_eq_distinct by blast
  moreover have "mset (filter ?P entries) + mset (filter (\<lambda>e. \<not> ?P e) entries) = mset entries"
    by (simp only: mset_filter multiset_partition [symmetric])
  ultimately show ?thesis by simp
qed

lemma trim_top_up_returns:
  assumes "0 \<le> t"
  shows "\<exists>res rng'. trim_top_up smp entries t selected rng = Inr (res, rng')"
proof -
  let ?pool = "filter (\<lambda>e. entry_id e \<notin> set (map entry_id selected)) entries"
  let ?k = "min (t - int (length selected)) (int (length ?pool))"
  have 1: "t < int (length selected) \<Longrightarrow>
      py_sample smp rng selected t = Inr (smp rng selected (nat t))"
    using assms by (intro py_sample_Inr) simp_all
  have 2: "0 < ?k \<Longrightarrow> py_sample smp rng ?pool ?k = Inr (smp rng ?pool (nat ?k))"
    by (intro py_sample_Inr) simp_all
  show ?thesis
    unfolding trim_top_up_def Let_def using 1 2
    by (cases "smp rng selected (nat t)"; cases "smp rng ?pool (nat ?k)") auto
qed

lemma trim_top_up_result:
  assumes "sample_contract smp" "distinct (map entry_id entries)"
    "mset selected \<subseteq># mset entries" "0 < t" "t \<le> int (length entries)"
    "trim_top_up smp entries t selected rng = Inr (res, rng')"
  shows "int (length res) = t \<and> mset res \<subseteq># mset entries"
proof -
  let ?pool = "filter (\<lambda>e. entry_id e \<notin> set (map entry_id selected)) entries"
  let ?k = "min (t - int (length selected)) (int (length ?pool))"
  have part: "mset selected + mset ?pool = mset entries"
    using assms(2,3) by (rule remaining_pool_mset)
  then have "length (selected @ ?pool) = length entries"
    by (metis mset_append size_mset)
  then have len: "length selected + length ?pool = length entries" by simp
  consider (trim) "t < int (length selected)" | (top) "int (length selected) < t"
    | (eq) "int (length selected) = t" by linarith
  then show ?thesis
  proof cases
    case trim
    then have "py_sample smp rng selected t = Inr (res, rng')"
      using assms(6) by (simp add: trim_top_up_def)
    from py_sample_props [OF assms(1) _ _ this] trim assms(4)
    have "length res = nat t" "mset res \<subseteq># mset selected" by simp_all
    then show ?thesis using assms(3,4) by (auto intro: subset_mset.order_trans)
  next
    case top
    have k: "?k = t - int (length selected)" using len assms(5) by linarith
    then have kpos: "0 < ?k" using top by linarith
    obtain ys r1 where ys: "py_sample smp rng ?pool ?k = Inr (ys, r1)"
      using kpos by (simp add: py_sample_Inr prod_eq_iff)
    have p: "length ys = nat ?k" "mset ys \<subseteq># mset ?pool"
      using py_sample_props [OF assms(1) _ _ ys] kpos by simp_all
    have "res = selected @ ys"
      using assms(6) top kpos ys by (simp add: trim_top_up_def Let_def)
    moreover have "mset selected + mset ys \<subseteq># mset selected + mset ?pool"
      using p(2) by (simp del: mset_filter)
    then have "mset (selected @ ys) \<subseteq># mset entries"
      unfolding part by simp
    moreover have "int (length (selected @ ys)) = t" using p(1) k top by simp
    ultimately show ?thesis by blast
  next
    case eq
    then show ?thesis using assms(3,6) by (simp add: trim_top_up_def)
  qed
qed

section \<open>Allocation and \<^verbatim>\<open>stratified_sample\<close>\<close>

lemma mset_systems_sorted: "mset (systems_sorted buckets) = mset (map fst buckets)"
  by (simp add: systems_sorted_def)

lemma set_systems_sorted: "set (systems_sorted buckets) = set (map fst buckets)"
  by (simp add: systems_sorted_def)

lemma distinct_systems_sorted:
  "distinct (map fst buckets) \<Longrightarrow> distinct (systems_sorted buckets)"
  by (simp add: systems_sorted_def)

lemma make_buckets_not_Nil: "entries \<noteq> [] \<Longrightarrow> make_buckets entries \<noteq> []"
  using keys_make_buckets [of entries] by auto

lemma allocation_result:
  assumes "entries \<noteq> []"
  shows "\<exists>alloc. allocation rnd entries t = Some alloc
           \<and> map fst alloc = map fst (make_buckets entries)
           \<and> (\<forall>v \<in> set (map snd alloc). 1 \<le> v)
           \<and> sum_list (map snd alloc) = max t (int (length (make_buckets entries)))"
proof -
  let ?b = "make_buckets entries"
  let ?a = "initial_alloc rnd ?b (length entries) t"
  let ?ss = "systems_sorted ?b"
  let ?cur = "sum_list (map snd ?a)"
  have keys: "map fst ?a = map fst ?b" by (rule initial_alloc_keys)
  have dist: "distinct (map fst ?a)" using keys distinct_make_buckets [of entries] by simp
  have ge1: "\<forall>v \<in> set (map snd ?a). 1 \<le> v"
    using make_buckets_nonempty [of _ _ entries] by (intro initial_alloc_ge1) auto
  have ss: "set (map fst ?a) = set ?ss" using keys by (simp add: set_systems_sorted)
  have ne: "?ss \<noteq> []"
    using make_buckets_not_Nil [OF assms] set_systems_sorted [of ?b] by (metis list.map_disc_iff set_empty)
  have len: "length ?a = length ?b" by (simp add: initial_alloc_def)
  have cur: "int (length ?b) \<le> ?cur" using sum_ge_length [OF ge1] len by simp
  consider (add) "?cur < t" | (rem) "t < ?cur" | (eq) "?cur = t" by linarith
  then show ?thesis
  proof cases
    case add
    have "allocation rnd entries t = Some (add_remaining ?a ?ss (nat (t - ?cur)) 0)"
      using add by (simp add: allocation_def adjust_alloc_def Let_def)
    moreover have "set ?ss \<subseteq> set (map fst ?a)" using ss by simp
    note add_remaining_props [OF ne this dist ge1, of "nat (t - ?cur)" 0]
    ultimately show ?thesis using keys add cur by auto
  next
    case rem
    have "allocation rnd entries t = remove_surplus ?a ?ss (int (nat (?cur - t))) 0"
      using rem by (simp add: allocation_def adjust_alloc_def Let_def)
    moreover note remove_surplus_result [OF dist ss ge1, of "nat (?cur - t)" 0]
    ultimately show ?thesis using keys rem len by auto
  next
    case eq
    have "allocation rnd entries t = Some ?a"
      using eq by (simp add: allocation_def adjust_alloc_def Let_def)
    then show ?thesis using keys ge1 eq cur by auto
  qed
qed

lemma stratified_sample_result:
  assumes "sample_contract smp" "distinct (map entry_id entries)" "entries \<noteq> []" "0 < t"
  shows "\<exists>sample rng' notices.
           stratified_sample rnd smp entries t rng = Some (Inr (sample, rng', notices))
           \<and> int (length sample) = min t (int (length entries))
           \<and> mset sample \<subseteq># mset entries"
proof -
  let ?c = "if t > int (length entries) then int (length entries) else t"
  have c: "0 < ?c" "?c \<le> int (length entries)" "?c = min t (int (length entries))"
    using assms(3,4) by auto
  obtain alloc where al: "allocation rnd entries ?c = Some alloc"
    using allocation_result [OF assms(3)] by blast
  obtain sel r1 where dr: "draw_samples smp alloc (make_buckets entries) [] rng = Inr (sel, r1)"
    using draw_samples_returns [of smp alloc "make_buckets entries" "[]" rng] by blast
  have sub: "mset sel \<subseteq># mset entries"
    using draw_samples_subset [OF assms(1) dr] by (simp add: mset_concat_make_buckets)
  obtain res r2 where tr: "trim_top_up smp entries ?c sel r1 = Inr (res, r2)"
    using trim_top_up_returns [of ?c smp entries sel r1] c(1) by auto
  note trim_top_up_result [OF assms(1,2) sub c(1,2) tr]
  moreover have "stratified_sample rnd smp entries t rng
     = Some (Inr (res, r2, if t > int (length entries) then [Warn_reducing t (length entries)] else []))"
    using assms(3,4) al dr tr by (simp add: stratified_sample_def Let_def)
  ultimately show ?thesis using c(3) by auto
qed

section \<open>The two passes\<close>

lemma first_pass_spec:
  "first_pass es need ss used = (ss', used') \<Longrightarrow>
     \<exists>new. ss' = ss @ new \<and> distinct (map main_author new)
         \<and> main_author ` set new = Some ` (used' - used) \<and> used \<subseteq> used' \<and> set new \<subseteq> set es"
proof (induction es arbitrary: ss used)
  case Nil
  then show ?case by simp
next
  case (Cons e es)
  show ?case
  proof (cases "int (length ss) \<ge> need")
    case True
    then show ?thesis using Cons.prems by simp
  next
    case False
    show ?thesis
    proof (cases "main_author e")
      case None
      then have "first_pass es need ss used = (ss', used')" using Cons.prems False by simp
      from Cons.IH [OF this] show ?thesis by auto
    next
      case (Some a)
      show ?thesis
      proof (cases "a \<in> used")
        case True
        then have "first_pass es need ss used = (ss', used')" using Cons.prems False Some by simp
        from Cons.IH [OF this] show ?thesis by auto
      next
        case notin: False
        then have "first_pass es need (ss @ [e]) (insert a used) = (ss', used')"
          using Cons.prems False Some by simp
        from Cons.IH [OF this] obtain new where new: "ss' = (ss @ [e]) @ new"
          "distinct (map main_author new)" "main_author ` set new = Some ` (used' - insert a used)"
          "insert a used \<subseteq> used'" "set new \<subseteq> set es" by blast
        have "main_author e \<notin> main_author ` set new" using new(3) Some by auto
        then have "distinct (map main_author (e # new))" using new(2) by simp
        moreover have "main_author ` set (e # new) = Some ` (used' - used)"
          using new(3,4) Some notin by auto
        ultimately show ?thesis using new(1,4,5) by (intro exI [of _ "e # new"]) auto
      qed
    qed
  qed
qed

lemma second_pass_spec:
  "distinct ss \<Longrightarrow>
     \<exists>more. second_pass es need ss = ss @ more \<and> distinct (ss @ more) \<and> set more \<subseteq> set es"
proof (induction es arbitrary: ss)
  case Nil
  then show ?case by simp
next
  case (Cons e es)
  consider (full) "int (length ss) \<ge> need" | (dup) "\<not> int (length ss) \<ge> need" "e \<in> set ss"
    | (new) "\<not> int (length ss) \<ge> need" "e \<notin> set ss" by blast
  then show ?case
  proof cases
    case full
    then show ?thesis using Cons.prems by simp
  next
    case dup
    then show ?thesis using Cons.IH [OF Cons.prems] by auto
  next
    case new
    have "distinct (ss @ [e])" using Cons.prems new(2) by simp
    from Cons.IH [OF this] obtain more where
      "second_pass es need (ss @ [e]) = (ss @ [e]) @ more" "distinct ((ss @ [e]) @ more)"
      "set more \<subseteq> set es" by blast
    then show ?thesis using new by (intro exI [of _ "e # more"]) auto
  qed
qed

lemma select_in_system_spec:
  assumes "select_in_system bc need used = (sys, used', first)"
  shows "distinct sys \<and> set sys \<subseteq> set bc \<and> (\<exists>more. sys = first @ more)
       \<and> distinct (map main_author first)
       \<and> main_author ` set first = Some ` (used' - used) \<and> used \<subseteq> used'"
proof -
  have fp: "first_pass bc need [] used = (first, used')"
    using assms by (auto simp: select_in_system_def Let_def split: prod.splits)
  from first_pass_spec [OF fp] have f: "distinct (map main_author first)"
    "main_author ` set first = Some ` (used' - used)" "used \<subseteq> used'" "set first \<subseteq> set bc"
    by auto
  have df: "distinct first" using f(1) by (simp add: distinct_map)
  have sys: "sys = (if int (length first) < need then second_pass bc need first else first)"
    using assms fp by (simp add: select_in_system_def Let_def)
  from second_pass_spec [OF df, of bc need] obtain more where
    "second_pass bc need first = first @ more" "distinct (first @ more)" "set more \<subseteq> set bc"
    by blast
  then have "distinct sys \<and> set sys \<subseteq> set bc \<and> (\<exists>more. sys = first @ more)"
    using sys df f(4) by auto
  then show ?thesis using f by blast
qed

lemma distinct_subset_mset:
  "distinct xs \<Longrightarrow> set xs \<subseteq> set ys \<Longrightarrow> mset xs \<subseteq># mset ys"
proof (induction xs arbitrary: ys)
  case Nil
  then show ?case by simp
next
  case (Cons x xs)
  have x: "x \<in> set ys" using Cons.prems(2) by simp
  have "set xs \<subseteq> set (remove1 x ys)"
  proof
    fix y assume y: "y \<in> set xs"
    then have "y \<noteq> x" "y \<in> set ys" using Cons.prems by auto
    then show "y \<in> set (remove1 x ys)" by simp
  qed
  with Cons.prems(1) have "mset xs \<subseteq># mset (remove1 x ys)"
    by (intro Cons.IH) simp_all
  then show ?case using x by (simp add: insert_subset_eq_iff)
qed

section \<open>The loop over the systems\<close>

lemma select_systems_skip:
  "alloc_get al s 0 \<le> 0 \<or> bucket_at b s = [] \<Longrightarrow>
     select_systems shf b al (s # ss) used sel rng picked
       = select_systems shf b al ss used sel rng picked"
  by (simp add: Let_def)

lemma select_systems_step:
  "\<not> (alloc_get al s 0 \<le> 0 \<or> bucket_at b s = []) \<Longrightarrow>
     shf rng (bucket_at b s) = (bc, r1) \<Longrightarrow>
     select_in_system bc (alloc_get al s 0) used = (sys, u1, first) \<Longrightarrow>
     select_systems shf b al (s # ss) used sel rng picked
       = select_systems shf b al ss u1 (sel @ sys) r1 (picked @ first)"
  by (simp add: Let_def)

lemma select_systems_spec:
  assumes "shuffle_contract shf"
  shows "select_systems shf b al ss used sel rng picked = (sel', used', rng', picked') \<Longrightarrow>
    (\<exists>add new. sel' = sel @ add \<and> mset add \<subseteq># mset (concat (map (bucket_at b) ss))
       \<and> picked' = picked @ new \<and> distinct (map main_author new)
       \<and> main_author ` set new = Some ` (used' - used) \<and> set new \<subseteq> set add)
    \<and> used \<subseteq> used'"
proof (induction ss arbitrary: used sel rng picked)
  case Nil
  then show ?case by simp
next
  case (Cons s ss)
  show ?case
  proof (cases "alloc_get al s 0 \<le> 0 \<or> bucket_at b s = []")
    case True
    then have "select_systems shf b al ss used sel rng picked = (sel', used', rng', picked')"
      using Cons.prems by (simp only: select_systems_skip)
    from Cons.IH [OF this] obtain add new where an: "sel' = sel @ add"
      "mset add \<subseteq># mset (concat (map (bucket_at b) ss))"
      "picked' = picked @ new" "distinct (map main_author new)"
      "main_author ` set new = Some ` (used' - used)" "set new \<subseteq> set add" "used \<subseteq> used'"
      by blast
    have "mset add \<subseteq># mset (concat (map (bucket_at b) (s # ss)))"
      using an(2) mset_subset_eq_add_right [of "mset (concat (map (bucket_at b) ss))" "mset (bucket_at b s)"]
      by (auto intro: subset_mset.order_trans)
    then show ?thesis using an
      by (intro conjI exI [of _ add] exI [of _ new]) simp_all
  next
    case False
    obtain bc r1 where sh: "shf rng (bucket_at b s) = (bc, r1)" by (cases "shf rng (bucket_at b s)")
    obtain sys u1 first where si: "select_in_system bc (alloc_get al s 0) used = (sys, u1, first)"
      by (cases "select_in_system bc (alloc_get al s 0) used")
    have "mset (fst (shf rng (bucket_at b s))) = mset (bucket_at b s)"
      using assms unfolding shuffle_contract_def by blast
    then have bc: "mset bc = mset (bucket_at b s)" by (simp add: sh)
    from select_in_system_spec [OF si] obtain more where sp: "distinct sys" "set sys \<subseteq> set bc"
      "sys = first @ more" "distinct (map main_author first)"
      "main_author ` set first = Some ` (u1 - used)" "used \<subseteq> u1" by blast
    have sub: "mset sys \<subseteq># mset (bucket_at b s)"
      using distinct_subset_mset [OF sp(1,2)] bc by simp
    have "select_systems shf b al ss u1 (sel @ sys) r1 (picked @ first) = (sel', used', rng', picked')"
      using Cons.prems False sh si by (simp add: Let_def)
    from Cons.IH [OF this] obtain add new where an: "sel' = (sel @ sys) @ add"
      "mset add \<subseteq># mset (concat (map (bucket_at b) ss))"
      "picked' = (picked @ first) @ new" "distinct (map main_author new)"
      "main_author ` set new = Some ` (used' - u1)" "set new \<subseteq> set add" "u1 \<subseteq> used'"
      by blast
    have 1: "mset (sys @ add) \<subseteq># mset (concat (map (bucket_at b) (s # ss)))"
      using sub an(2) by (simp add: subset_mset.add_mono)
    have "main_author ` set first \<inter> main_author ` set new = {}"
      using sp(5) an(5) by auto
    then have 2: "distinct (map main_author (first @ new))"
      using sp(4) an(4) by simp
    have 3: "main_author ` set (first @ new) = Some ` (used' - used)"
      using sp(5,6) an(5,7) by (auto simp: image_Un)
    have 4: "set (first @ new) \<subseteq> set (sys @ add)" using sp(3) an(6) by auto
    have 5: "used \<subseteq> used'" using an(7) sp(6) by simp
    show ?thesis
      using an(1,3) 1 2 3 4 5
      by (intro conjI exI [of _ "sys @ add"] exI [of _ "first @ new"]) simp_all
  qed
qed

section \<open>The selection stage and the sample generators\<close>

lemma mset_concat_map:
  "mset (concat (map f xs)) = sum_mset (image_mset (\<lambda>x. mset (f x)) (mset xs))"
  by (induction xs) simp_all

lemma bucket_at_keys:
  "distinct (map fst b) \<Longrightarrow> map (bucket_at b) (map fst b) = map snd b"
  by (induction b) (auto simp: bucket_at_def rev_image_eqI)

lemma mset_concat_sorted_buckets:
  "mset (concat (map (bucket_at (make_buckets es)) (systems_sorted (make_buckets es)))) = mset es"
proof -
  let ?b = "make_buckets es"
  have "mset (concat (map (bucket_at ?b) (systems_sorted ?b)))
      = mset (concat (map (bucket_at ?b) (map fst ?b)))"
    unfolding mset_concat_map by (simp only: mset_systems_sorted)
  also have "\<dots> = mset (concat (map snd ?b))"
    by (simp only: bucket_at_keys [OF distinct_make_buckets])
  finally show ?thesis by (simp only: mset_concat_make_buckets)
qed

lemma diverse_selection_result:
  assumes "shuffle_contract shf" "entries \<noteq> []"
  shows "\<exists>selected used rng' picked.
           diverse_selection rnd shf entries t rng = Some (selected, used, rng', picked)
           \<and> mset selected \<subseteq># mset entries \<and> distinct (map main_author picked)
           \<and> main_author ` set picked = Some ` used \<and> set picked \<subseteq> set selected"
proof -
  let ?b = "make_buckets entries"
  obtain alloc where al: "allocation rnd entries t = Some alloc"
    using allocation_result [OF assms(2)] by blast
  obtain selected used rng' picked where
    sel: "select_systems shf ?b alloc (systems_sorted ?b) {} [] rng [] = (selected, used, rng', picked)"
    by (cases "select_systems shf ?b alloc (systems_sorted ?b) {} [] rng []") auto
  from select_systems_spec [OF assms(1) sel]
  have "mset selected \<subseteq># mset entries \<and> distinct (map main_author picked)
           \<and> main_author ` set picked = Some ` used \<and> set picked \<subseteq> set selected"
    by (auto simp: mset_concat_sorted_buckets)
  moreover have "diverse_selection rnd shf entries t rng = Some (selected, used, rng', picked)"
    using al sel by (simp add: diverse_selection_def)
  ultimately show ?thesis by blast
qed

lemma diverse_sample_result:
  assumes "shuffle_contract shf" "sample_contract smp" "distinct (map entry_id entries)"
    "entries \<noteq> []" "0 < t"
  shows "\<exists>sample rng' notices.
           main_author_diverse_stratified_sample rnd shf smp entries t rng
             = Some (Inr (sample, rng', notices))
           \<and> int (length sample) = min t (int (length entries))
           \<and> mset sample \<subseteq># mset entries"
proof -
  let ?c = "if t > int (length entries) then int (length entries) else t"
  have c: "0 < ?c" "?c \<le> int (length entries)" "?c = min t (int (length entries))"
    using assms(4,5) by auto
  obtain selected used r1 picked where
    ds: "diverse_selection rnd shf entries ?c rng = Some (selected, used, r1, picked)"
    and sub: "mset selected \<subseteq># mset entries"
    using diverse_selection_result [OF assms(1,4), of rnd ?c rng] by blast
  obtain res r2 where tr: "trim_top_up smp entries ?c selected r1 = Inr (res, r2)"
    using trim_top_up_returns [of ?c smp entries selected r1] c(1) by auto
  note trim_top_up_result [OF assms(2,3) sub c(1,2) tr]
  moreover have "main_author_diverse_stratified_sample rnd shf smp entries t rng
     = Some (Inr (res, r2, if t > int (length entries) then [Warn_reducing t (length entries)] else []))"
    using assms(4,5) ds tr by (simp add: main_author_diverse_stratified_sample_def Let_def)
  ultimately show ?thesis using c(3) by auto
qed

lemma mset_rotate1: "mset (rotate1 xs) = mset xs"
  by (cases xs) simp_all

lemma mset_rotate: "mset (rotate n xs) = mset xs"
  by (induction n) (simp_all add: mset_rotate1)

lemma mset_take_sub: "mset (take k xs) \<subseteq># mset xs"
proof -
  have "mset xs = mset (take k xs) + mset (drop k xs)"
    by (metis append_take_drop_id mset_append)
  then show ?thesis by simp
qed

lemma rot_shuffle_contract: "shuffle_contract rot_shuffle"
  by (simp add: shuffle_contract_def rot_shuffle_def mset_rotate)

lemma rot_sample_contract: "sample_contract rot_sample"
proof -
  have "mset (take k (rotate r xs)) \<subseteq># mset xs" for k r and xs :: "'a list"
    using mset_take_sub [of k "rotate r xs"] by (simp add: mset_rotate)
  then show ?thesis by (simp add: sample_contract_def rot_sample_def)
qed

section \<open>Results of the two sampling functions\<close>

lemma length_make_buckets: "length (make_buckets es) = card (system ` set es)"
proof -
  have "length (make_buckets es) = length (map fst (make_buckets es))" by simp
  also have "\<dots> = card (set (map fst (make_buckets es)))"
    using distinct_make_buckets [of es] by (simp only: distinct_card)
  finally show ?thesis by (simp only: keys_make_buckets)
qed

lemma alloc_all_one:
  "\<forall>v \<in> set (map snd (al :: alloc)). 1 \<le> v \<Longrightarrow> sum_list (map snd al) = int (length al) \<Longrightarrow>
     \<forall>v \<in> set (map snd al). v = 1"
proof (induction al)
  case Nil
  then show ?case by simp
next
  case (Cons p al)
  have "int (length al) \<le> sum_list (map snd al)" using Cons.prems(1) by (intro sum_ge_length) simp
  then have "snd p = 1" "sum_list (map snd al) = int (length al)" using Cons.prems by auto
  then show ?case using Cons by auto
qed

lemma stratified_sample_returns:
  assumes "entries \<noteq> []" "0 < t"
  shows "\<exists>sample rng'.
           stratified_sample rnd smp entries t rng
             = Some (Inr (sample, rng',
                  if int (length entries) < t then [Warn_reducing t (length entries)] else []))
           \<and> stratified_sample rnd smp entries (min t (int (length entries))) rng
             = Some (Inr (sample, rng', []))"
proof -
  define c where "c = min t (int (length entries))"
  have "0 < int (length entries)" using assms(1) by simp
  then have c: "0 < c" "\<not> c \<le> 0" "\<not> int (length entries) < c"
    using assms(2) unfolding c_def by linarith+
  obtain alloc where al: "allocation rnd entries c = Some alloc"
    using allocation_result [OF assms(1)] by blast
  obtain sel r1 where dr: "draw_samples smp alloc (make_buckets entries) [] rng = Inr (sel, r1)"
    using draw_samples_returns [of smp alloc "make_buckets entries" "[]" rng] by blast
  obtain res r2 where tr: "trim_top_up smp entries c sel r1 = Inr (res, r2)"
    using trim_top_up_returns [of c smp entries sel r1] c(1) by auto
  have "(if int (length entries) < t then int (length entries) else t) = c"
    by (simp add: c_def)
  then have "stratified_sample rnd smp entries t rng
     = Some (Inr (res, r2, if int (length entries) < t then [Warn_reducing t (length entries)] else []))"
    using assms al dr tr by (simp add: stratified_sample_def Let_def)
  moreover have "stratified_sample rnd smp entries c rng = Some (Inr (res, r2, []))"
    using assms c al dr tr by (simp add: stratified_sample_def Let_def)
  ultimately show ?thesis unfolding c_def by blast
qed

lemma diverse_sample_returns:
  assumes "entries \<noteq> []" "0 < t"
  shows "\<exists>sample rng'.
           main_author_diverse_stratified_sample rnd shf smp entries t rng
             = Some (Inr (sample, rng',
                  if int (length entries) < t then [Warn_reducing t (length entries)] else []))
           \<and> main_author_diverse_stratified_sample rnd shf smp entries (min t (int (length entries))) rng
             = Some (Inr (sample, rng', []))"
proof -
  define c where "c = min t (int (length entries))"
  let ?b = "make_buckets entries"
  have "0 < int (length entries)" using assms(1) by simp
  then have c: "0 < c" "\<not> c \<le> 0" "\<not> int (length entries) < c"
    using assms(2) unfolding c_def by linarith+
  obtain alloc where al: "allocation rnd entries c = Some alloc"
    using allocation_result [OF assms(1)] by blast
  obtain selected used r1 picked where
    sel: "select_systems shf ?b alloc (systems_sorted ?b) {} [] rng [] = (selected, used, r1, picked)"
    by (cases "select_systems shf ?b alloc (systems_sorted ?b) {} [] rng []") auto
  have ds: "diverse_selection rnd shf entries c rng = Some (selected, used, r1, picked)"
    using al sel by (simp add: diverse_selection_def)
  obtain res r2 where tr: "trim_top_up smp entries c selected r1 = Inr (res, r2)"
    using trim_top_up_returns [of c smp entries selected r1] c(1) by auto
  have "(if int (length entries) < t then int (length entries) else t) = c"
    by (simp add: c_def)
  then have "main_author_diverse_stratified_sample rnd shf smp entries t rng
     = Some (Inr (res, r2, if int (length entries) < t then [Warn_reducing t (length entries)] else []))"
    using assms ds tr by (simp add: main_author_diverse_stratified_sample_def Let_def)
  moreover have "main_author_diverse_stratified_sample rnd shf smp entries c rng = Some (Inr (res, r2, []))"
    using assms c ds tr by (simp add: main_author_diverse_stratified_sample_def Let_def)
  ultimately show ?thesis unfolding c_def by blast
qed

section \<open>Claims\<close>

text \<open>
  C1. For a population with pairwise distinct \<open>entry_id\<close>s and at least one entry, and a
  target of at least 1, both \<open>stratified_sample\<close> and
  \<open>main_author_diverse_stratified_sample\<close> return, without raising, a sample of exactly
  \<open>min target n\<close> entries whose \<open>entry_id\<close>s are pairwise distinct, for every
  generator that meets the contracts of \<^verbatim>\<open>sample\<close> and \<^verbatim>\<open>shuffle\<close>.
\<close>

theorem sample_exact_count_distinct_ids:
  assumes "distinct (map entry_id entries)" "entries \<noteq> []" "1 \<le> target" "sample_contract smp"
    and "distinct (map entry_id entries')" "entries' \<noteq> []" "1 \<le> target'"
      "sample_contract smp'" "shuffle_contract shf"
  shows "(\<exists>sample rng' notices.
            stratified_sample rnd smp entries target rng = Some (Inr (sample, rng', notices))
            \<and> length sample = min (nat target) (length entries)
            \<and> distinct (map entry_id sample))
       \<and> (\<exists>sample rng' notices.
            main_author_diverse_stratified_sample rnd shf smp' entries' target' rng0
              = Some (Inr (sample, rng', notices))
            \<and> length sample = min (nat target') (length entries')
            \<and> distinct (map entry_id sample))"
proof
  obtain sample rng' notices where
    r: "stratified_sample rnd smp entries target rng = Some (Inr (sample, rng', notices))"
      "int (length sample) = min target (int (length entries))" "mset sample \<subseteq># mset entries"
    using stratified_sample_result [OF assms(4,1,2), of target rnd rng] assms(3) by auto
  have "distinct (map entry_id sample)" using r(3) assms(1) by (rule submset_distinct_map)
  moreover have "length sample = min (nat target) (length entries)" using r(2) assms(3) by linarith
  ultimately show "\<exists>sample rng' notices.
            stratified_sample rnd smp entries target rng = Some (Inr (sample, rng', notices))
            \<and> length sample = min (nat target) (length entries)
            \<and> distinct (map entry_id sample)" using r(1) by blast
next
  obtain sample rng' notices where
    r: "main_author_diverse_stratified_sample rnd shf smp' entries' target' rng0
          = Some (Inr (sample, rng', notices))"
      "int (length sample) = min target' (int (length entries'))" "mset sample \<subseteq># mset entries'"
    using diverse_sample_result [OF assms(9,8,5,6), of target' rnd rng0] assms(7) by auto
  have "distinct (map entry_id sample)" using r(3) assms(5) by (rule submset_distinct_map)
  moreover have "length sample = min (nat target') (length entries')" using r(2) assms(7) by linarith
  ultimately show "\<exists>sample rng' notices.
            main_author_diverse_stratified_sample rnd shf smp' entries' target' rng0
              = Some (Inr (sample, rng', notices))
            \<and> length sample = min (nat target') (length entries')
            \<and> distinct (map entry_id sample)" using r(1) by blast
qed

theorem sample_exact_count_distinct_ids_witness:
  "distinct (map entry_id three_strata) \<and> three_strata \<noteq> [] \<and> (1::int) \<le> 2
   \<and> distinct (map entry_id one_author) \<and> one_author \<noteq> [] \<and> (1::int) \<le> 3
   \<and> (\<exists>sample rng' notices.
         stratified_sample exact_round rot_sample three_strata 2 (0::nat)
           = Some (Inr (sample, rng', notices))
         \<and> length sample = 2 \<and> distinct (map entry_id sample))
   \<and> (\<exists>sample rng' notices.
         main_author_diverse_stratified_sample exact_round rot_shuffle rot_sample one_author 3 (0::nat)
           = Some (Inr (sample, rng', notices))
         \<and> length sample = 3 \<and> distinct (map entry_id sample))"
proof -
  have h1: "distinct (map entry_id three_strata)" "three_strata \<noteq> []"
    by (simp_all add: three_strata_def entry_def)
  have h2: "distinct (map entry_id one_author)" "one_author \<noteq> []"
    by (simp_all add: one_author_def entry_by_def)
  have l: "length three_strata = 3" "length one_author = 3"
    by (simp_all add: three_strata_def one_author_def)
  show ?thesis
    using sample_exact_count_distinct_ids [OF h1 _ rot_sample_contract h2 _ rot_sample_contract
        rot_shuffle_contract, of 2 3 exact_round 0 0] h1 h2 l
    by simp
qed

text \<open>
  C3. Both sampling functions raise exactly when \<open>target_size \<le> 0\<close> (\<^verbatim>\<open>ValueError\<close>,
  "target_size must be positive") or, the target being positive, when the population is
  empty (\<^verbatim>\<open>ValueError\<close>, "no entries available for sampling"). With a positive target
  above the population size they return what the call with the population size as target
  returns, and the only difference is the printed warning.
\<close>

theorem raises_iff:
  "((\<exists>err. stratified_sample rnd smp entries t rng = Some (Inl err)) \<longleftrightarrow> t \<le> 0 \<or> entries = [])
   \<and> (t \<le> 0 \<longrightarrow> stratified_sample rnd smp entries t rng
          = Some (Inl (ValueError ''target_size must be positive'')))
   \<and> (0 < t \<and> entries = [] \<longrightarrow> stratified_sample rnd smp entries t rng
          = Some (Inl (ValueError ''no entries available for sampling'')))
   \<and> (0 < t \<and> entries \<noteq> [] \<longrightarrow>
        (\<exists>sample rng'.
           stratified_sample rnd smp entries t rng
             = Some (Inr (sample, rng',
                  if int (length entries) < t then [Warn_reducing t (length entries)] else []))
           \<and> stratified_sample rnd smp entries (min t (int (length entries))) rng
             = Some (Inr (sample, rng', []))))
   \<and> ((\<exists>err. main_author_diverse_stratified_sample rnd shf smp' entries' t rng
          = Some (Inl err)) \<longleftrightarrow> t \<le> 0 \<or> entries' = [])
   \<and> (t \<le> 0 \<longrightarrow> main_author_diverse_stratified_sample rnd shf smp' entries' t rng
          = Some (Inl (ValueError ''target_size must be positive'')))
   \<and> (0 < t \<and> entries' = [] \<longrightarrow> main_author_diverse_stratified_sample rnd shf smp' entries' t rng
          = Some (Inl (ValueError ''no entries available for sampling'')))
   \<and> (0 < t \<and> entries' \<noteq> [] \<longrightarrow>
        (\<exists>sample rng'.
           main_author_diverse_stratified_sample rnd shf smp' entries' t rng
             = Some (Inr (sample, rng',
                  if int (length entries') < t then [Warn_reducing t (length entries')] else []))
           \<and> main_author_diverse_stratified_sample rnd shf smp' entries'
                (min t (int (length entries'))) rng
             = Some (Inr (sample, rng', []))))"
proof -
  have a1: "t \<le> 0 \<Longrightarrow> stratified_sample rnd smp entries t rng
          = Some (Inl (ValueError ''target_size must be positive''))"
    by (simp add: stratified_sample_def)
  have a2: "0 < t \<Longrightarrow> entries = [] \<Longrightarrow> stratified_sample rnd smp entries t rng
          = Some (Inl (ValueError ''no entries available for sampling''))"
    by (simp add: stratified_sample_def)
  note a3 = stratified_sample_returns [of entries t rnd smp rng]
  have b1: "t \<le> 0 \<Longrightarrow> main_author_diverse_stratified_sample rnd shf smp' entries' t rng
          = Some (Inl (ValueError ''target_size must be positive''))"
    by (simp add: main_author_diverse_stratified_sample_def)
  have b2: "0 < t \<Longrightarrow> entries' = [] \<Longrightarrow>
      main_author_diverse_stratified_sample rnd shf smp' entries' t rng
          = Some (Inl (ValueError ''no entries available for sampling''))"
    by (simp add: main_author_diverse_stratified_sample_def)
  note b3 = diverse_sample_returns [of entries' t rnd shf smp' rng]
  have a: "(\<exists>err. stratified_sample rnd smp entries t rng = Some (Inl err)) \<longleftrightarrow> t \<le> 0 \<or> entries = []"
  proof (cases "t \<le> 0 \<or> entries = []")
    case True
    then show ?thesis using a1 a2 by (cases "t \<le> 0") auto
  next
    case False
    then show ?thesis using a3 by auto
  qed
  have b: "(\<exists>err. main_author_diverse_stratified_sample rnd shf smp' entries' t rng
          = Some (Inl err)) \<longleftrightarrow> t \<le> 0 \<or> entries' = []"
  proof (cases "t \<le> 0 \<or> entries' = []")
    case True
    then show ?thesis using b1 b2 by (cases "t \<le> 0") auto
  next
    case False
    then show ?thesis using b3 by auto
  qed
  show ?thesis using a a1 a2 a3 b b1 b2 b3 by blast
qed

theorem raises_iff_witness:
  "(0::int) < 5 \<and> three_strata \<noteq> [] \<and> one_author \<noteq> []
   \<and> (\<exists>sample rng'.
         stratified_sample exact_round rot_sample three_strata 5 (0::nat)
           = Some (Inr (sample, rng', [Warn_reducing 5 3]))
         \<and> stratified_sample exact_round rot_sample three_strata 3 (0::nat)
           = Some (Inr (sample, rng', [])))
   \<and> (\<exists>sample rng'.
         main_author_diverse_stratified_sample exact_round rot_shuffle rot_sample one_author 5 (0::nat)
           = Some (Inr (sample, rng', [Warn_reducing 5 3]))
         \<and> main_author_diverse_stratified_sample exact_round rot_shuffle rot_sample one_author 3 (0::nat)
           = Some (Inr (sample, rng', [])))
   \<and> stratified_sample exact_round rot_sample three_strata 0 (0::nat)
        = Some (Inl (ValueError ''target_size must be positive''))
   \<and> stratified_sample exact_round rot_sample ([] :: RepoEntry list) 2 (0::nat)
        = Some (Inl (ValueError ''no entries available for sampling''))"
proof -
  have l: "length three_strata = 3" "length one_author = 3" "three_strata \<noteq> []" "one_author \<noteq> []"
    by (simp_all add: three_strata_def one_author_def)
  show ?thesis
    using raises_iff [of exact_round rot_sample three_strata 5 "0::nat" rot_shuffle rot_sample one_author]
      raises_iff [of exact_round rot_sample three_strata 0 "0::nat" rot_shuffle rot_sample one_author]
      raises_iff [of exact_round rot_sample "[] :: RepoEntry list" 2 "0::nat" rot_shuffle rot_sample one_author]
      l
    by simp
qed

text \<open>
  C4. For every non-empty population and every target, the allocation loop returns, and
  the quotas it returns, after the initial proportional allocation and the drift fix-up,
  give every stratum that has an entry a quota of at least 1; the strata with a quota are
  exactly the strata of the population.
\<close>

theorem allocation_minimum:
  assumes "entries \<noteq> []"
  shows "\<exists>alloc. allocation rnd entries target = Some alloc
           \<and> set (map fst alloc) = system ` set entries
           \<and> (\<forall>e \<in> set entries. 1 \<le> alloc_get alloc (system e) 0)"
proof -
  obtain alloc where al: "allocation rnd entries target = Some alloc"
    "map fst alloc = map fst (make_buckets entries)" "\<forall>v \<in> set (map snd alloc). 1 \<le> v"
    using allocation_result [OF assms] by blast
  have keys: "set (map fst alloc) = system ` set entries"
    using al(2) keys_make_buckets [of entries] by simp
  have "1 \<le> alloc_get alloc (system e) 0" if "e \<in> set entries" for e
  proof -
    have "system e \<in> set (map fst alloc)" using that keys by blast
    from alloc_get_mem [OF this, of 0] al(3) show ?thesis by blast
  qed
  then show ?thesis using al(1) keys by blast
qed

theorem allocation_minimum_witness:
  "three_strata \<noteq> []
   \<and> (\<exists>alloc. allocation exact_round three_strata 1 = Some alloc
        \<and> set (map fst alloc) = system ` set three_strata
        \<and> (\<forall>e \<in> set three_strata. 1 \<le> alloc_get alloc (system e) 0))"
proof -
  have h: "three_strata \<noteq> []" by (simp add: three_strata_def)
  show ?thesis using allocation_minimum [OF h, of exact_round 1] h by simp
qed

text \<open>
  C5, as stated, fails: with three strata of one entry each and target 1 every stratum
  keeps its quota 1, the removal loop has nothing to remove, and the quotas sum to 3,
  which is above the target, not below it.
\<close>

theorem allocation_sum_counterexample:
  "allocation exact_round three_strata 1 = Some [(''a'', 1), (''b'', 1), (''c'', 1)]
   \<and> sum_list (map snd [(''a'', 1 :: int), (''b'', 1), (''c'', 1)]) > 1"
  by (simp add: allocation_def adjust_alloc_def three_strata_def entry_def make_buckets_def
      setdefault_append_def initial_alloc_def exact_round_def systems_sorted_def bucket_at_def
      remove_surplus.simps Let_def)

text \<open>
  C5, amended. For every non-empty population and every target, the quotas after the
  drift fix-up sum to the larger of the target and the number of strata: to the target
  when the target is at least the number of strata, and otherwise, when the removal stops
  because no quota above 1 is left, every quota is 1 and the sum is the number of strata,
  which exceeds the target.
\<close>

theorem allocation_sum:
  assumes "entries \<noteq> []"
  shows "\<exists>alloc. allocation rnd entries target = Some alloc
           \<and> sum_list (map snd alloc) = max target (int (card (system ` set entries)))
           \<and> (target < int (card (system ` set entries)) \<longrightarrow> (\<forall>v \<in> set (map snd alloc). v = 1))"
proof -
  obtain alloc where al: "allocation rnd entries target = Some alloc"
    "map fst alloc = map fst (make_buckets entries)" "\<forall>v \<in> set (map snd alloc). 1 \<le> v"
    "sum_list (map snd alloc) = max target (int (length (make_buckets entries)))"
    using allocation_result [OF assms] by blast
  have len: "length alloc = card (system ` set entries)"
    using al(2) length_make_buckets [of entries] by (metis length_map)
  have sm: "sum_list (map snd alloc) = max target (int (card (system ` set entries)))"
    using al(4) by (simp only: length_make_buckets)
  have "\<forall>v \<in> set (map snd alloc). v = 1" if "target < int (card (system ` set entries))"
    using al(3) by (rule alloc_all_one) (use sm len that in simp)
  then show ?thesis using al(1) sm by blast
qed

theorem allocation_sum_witness:
  "three_strata \<noteq> [] \<and> (1::int) < int (card (system ` set three_strata))
   \<and> (\<exists>alloc. allocation exact_round three_strata 1 = Some alloc
        \<and> sum_list (map snd alloc) = 3 \<and> (\<forall>v \<in> set (map snd alloc). v = 1))"
proof -
  have h: "three_strata \<noteq> []" by (simp add: three_strata_def)
  have c: "card (system ` set three_strata) = 3" by (simp add: three_strata_def entry_def)
  show ?thesis using allocation_sum [OF h, of exact_round 1] h c by simp
qed

lemma distinct_const_length:
  "distinct (map f xs) \<Longrightarrow> \<forall>x \<in> set xs. f x = a \<Longrightarrow> length xs \<le> 1"
  by (cases xs rule: list.exhaust [case_names Nil Cons]; cases "tl xs") auto

text \<open>
  C7. Within one run of the selection stage, over all strata together, the entries that
  the first passes choose have pairwise distinct authors, none of them absent; those
  authors are exactly the final \<open>used_authors\<close>, and every such entry is in \<open>selected\<close>.
  When all entries of the population share one author the first passes choose at most one
  entry; and a population of three such entries with distinct ids and target 3 still
  yields a sample of exactly three entries.
\<close>

theorem first_pass_unique_authors:
  assumes "shuffle_contract shf" "entries \<noteq> []"
  shows "(\<exists>selected used rng' picked.
            diverse_selection rnd shf entries t rng = Some (selected, used, rng', picked)
            \<and> distinct (map main_author picked)
            \<and> (\<forall>e \<in> set picked. main_author e \<noteq> None \<and> e \<in> set selected)
            \<and> main_author ` set picked = Some ` used
            \<and> ((\<forall>e \<in> set entries. main_author e = a) \<longrightarrow> length picked \<le> 1))
       \<and> (sample_contract smp \<and> distinct (map entry_id entries) \<and> length entries = 3 \<longrightarrow>
            (\<exists>sample rng' notices.
               main_author_diverse_stratified_sample rnd shf smp entries 3 rng
                 = Some (Inr (sample, rng', notices))
               \<and> length sample = 3))"
proof
  obtain selected used rng' picked where
    d: "diverse_selection rnd shf entries t rng = Some (selected, used, rng', picked)"
      "mset selected \<subseteq># mset entries" "distinct (map main_author picked)"
      "main_author ` set picked = Some ` used" "set picked \<subseteq> set selected"
    using diverse_selection_result [OF assms, of rnd t rng] by blast
  have 1: "\<forall>e \<in> set picked. main_author e \<noteq> None \<and> e \<in> set selected"
    using d(4,5) by auto
  have "length picked \<le> 1" if all: "\<forall>e \<in> set entries. main_author e = a"
  proof -
    have "set picked \<subseteq> set entries"
      using d(5) set_mset_mono [OF d(2)] by auto
    then have "\<forall>e \<in> set picked. main_author e = a" using all by blast
    with d(3) show ?thesis by (rule distinct_const_length)
  qed
  then show "\<exists>selected used rng' picked.
            diverse_selection rnd shf entries t rng = Some (selected, used, rng', picked)
            \<and> distinct (map main_author picked)
            \<and> (\<forall>e \<in> set picked. main_author e \<noteq> None \<and> e \<in> set selected)
            \<and> main_author ` set picked = Some ` used
            \<and> ((\<forall>e \<in> set entries. main_author e = a) \<longrightarrow> length picked \<le> 1)"
    using d(1,3,4) 1 by blast
next
  show "sample_contract smp \<and> distinct (map entry_id entries) \<and> length entries = 3 \<longrightarrow>
            (\<exists>sample rng' notices.
               main_author_diverse_stratified_sample rnd shf smp entries 3 rng
                 = Some (Inr (sample, rng', notices))
               \<and> length sample = 3)"
  proof
    assume h: "sample_contract smp \<and> distinct (map entry_id entries) \<and> length entries = 3"
    then obtain sample rng' notices where
      "main_author_diverse_stratified_sample rnd shf smp entries 3 rng
         = Some (Inr (sample, rng', notices))"
      "int (length sample) = min 3 (int (length entries))"
      using diverse_sample_result [OF assms(1) _ _ assms(2), of smp 3 rnd rng] by auto
    then show "\<exists>sample rng' notices.
               main_author_diverse_stratified_sample rnd shf smp entries 3 rng
                 = Some (Inr (sample, rng', notices))
               \<and> length sample = 3" using h by auto
  qed
qed

theorem first_pass_unique_authors_witness:
  "one_author \<noteq> [] \<and> list_all (\<lambda>e. main_author e = Some ''X'') one_author
   \<and> distinct (map entry_id one_author) \<and> length one_author = 3
   \<and> (\<exists>selected used rng' picked.
         diverse_selection exact_round rot_shuffle one_author 3 (0::nat)
           = Some (selected, used, rng', picked)
         \<and> distinct (map main_author picked)
         \<and> main_author ` set picked = Some ` used
         \<and> length picked \<le> 1)
   \<and> (\<exists>sample rng' notices.
         main_author_diverse_stratified_sample exact_round rot_shuffle rot_sample one_author 3 (0::nat)
           = Some (Inr (sample, rng', notices))
         \<and> length sample = 3)"
proof -
  have h: "one_author \<noteq> []" "\<forall>e \<in> set one_author. main_author e = Some ''X''"
    "distinct (map entry_id one_author)" "length one_author = 3"
    by (simp_all add: one_author_def entry_by_def)
  show ?thesis
    using first_pass_unique_authors [OF rot_shuffle_contract h(1),
        of exact_round 3 0 "Some ''X''" rot_sample] h rot_sample_contract
    unfolding list_all_iff by blast
qed

lemma keys_make_buckets_order:
  "map fst (make_buckets es) = rev (remdups (rev (map system es)))"
proof (induction es rule: rev_induct)
  case Nil
  then show ?case by (simp add: make_buckets_Nil)
next
  case (snoc e es)
  have "set (rev (remdups (rev (map system es)))) = system ` set es" by simp
  then show ?case
    using snoc keys_make_buckets [of es]
    by (simp add: make_buckets_snoc setdefault_append_def update_keys)
qed

lemma systems_sorted_descending:
  "sorted_wrt (\<lambda>a b. length (bucket_at buckets a) \<ge> length (bucket_at buckets b))
     (systems_sorted buckets)"
proof -
  let ?f = "\<lambda>s. length (bucket_at buckets s)"
  have "sorted (map ?f (sort_key ?f (rev (map fst buckets))))" by (rule sorted_sort_key)
  then have "sorted_wrt (\<lambda>a b. ?f a \<le> ?f b) (sort_key ?f (rev (map fst buckets)))"
    by (simp only: sorted_map)
  then show ?thesis by (simp only: systems_sorted_def sorted_wrt_rev)
qed

lemma systems_sorted_stable:
  "filter (\<lambda>s. length (bucket_at buckets s) = k) (systems_sorted buckets)
     = filter (\<lambda>s. length (bucket_at buckets s) = k) (map fst buckets)"
proof -
  let ?f = "\<lambda>s. length (bucket_at buckets s)"
  have "filter (\<lambda>s. ?f s = k) (systems_sorted buckets)
      = rev (filter (\<lambda>s. ?f s = k) (sort_key ?f (rev (map fst buckets))))"
    by (simp only: systems_sorted_def rev_filter)
  also have "\<dots> = rev (filter (\<lambda>s. ?f s = k) (rev (map fst buckets)))"
    by (simp only: sort_key_stable)
  also have "\<dots> = filter (\<lambda>s. ?f s = k) (map fst buckets)"
    by (simp only: rev_filter rev_rev_ident)
  finally show ?thesis .
qed

text \<open>
  C6, as stated, fails. With the population \<open>b, a\<close> (one entry each) the code's order is
  \<open>b, a\<close>: the tie is broken by first appearance, not by the label. And the selection
  loop of \<^verbatim>\<open>script.py\<close> runs over \<^verbatim>\<open>buckets.items()\<close>, the order of first appearance,
  whatever the sizes: \<open>small, big\<close> for a population that starts with the small stratum.
\<close>

theorem stratum_order_counterexample:
  "systems_sorted (make_buckets two_strata_b_a) = [''b'', ''a'']
   \<and> \<not> spec_stratum_order (make_buckets two_strata_b_a)
         (systems_sorted (make_buckets two_strata_b_a))
   \<and> map fst (make_buckets small_then_big) = [''small'', ''big'']
   \<and> \<not> spec_stratum_order (make_buckets small_then_big) (map fst (make_buckets small_then_big))"
  by (simp add: two_strata_b_a_def small_then_big_def entry_def make_buckets_def
      setdefault_append_def systems_sorted_def bucket_at_def spec_stratum_order_def)

text \<open>
  C6, amended. \<open>systems_sorted\<close>, the order of the drift fix-up in both scripts and of the
  selection loop of \<^verbatim>\<open>script_distinct_authors.py\<close>, lists every stratum once, in descending
  bucket size, and strata of equal size in the order in which they first appear in the
  population; that order of first appearance is the order of \<^verbatim>\<open>buckets\<close>, over which the
  selection loop of \<^verbatim>\<open>script.py\<close> runs.
\<close>

theorem stratum_order:
  "sorted_wrt (\<lambda>a b. length (bucket_at (make_buckets entries) a)
                        \<ge> length (bucket_at (make_buckets entries) b))
     (systems_sorted (make_buckets entries))
   \<and> filter (\<lambda>s. length (bucket_at (make_buckets entries) s) = k)
        (systems_sorted (make_buckets entries))
     = filter (\<lambda>s. length (bucket_at (make_buckets entries) s) = k)
        (rev (remdups (rev (map system entries))))
   \<and> mset (systems_sorted (make_buckets entries)) = mset (rev (remdups (rev (map system entries))))
   \<and> map fst (make_buckets entries) = rev (remdups (rev (map system entries)))
   \<and> bucket_at (make_buckets entries) s = filter (\<lambda>e. system e = s) entries"
proof -
  have 1: "bucket_at (make_buckets entries) s = filter (\<lambda>e. system e = s) entries"
    by (auto simp: bucket_at_def map_of_make_buckets empty_filter_conv)
  show ?thesis
    using systems_sorted_descending [of "make_buckets entries"]
      systems_sorted_stable [of "make_buckets entries" k]
      mset_systems_sorted [of "make_buckets entries"]
      keys_make_buckets_order [of entries] 1
    by simp
qed

lemma first_pass_used_mono: "used \<subseteq> snd (first_pass es need ss used)"
  using first_pass_spec [of es need ss used "fst (first_pass es need ss used)"
      "snd (first_pass es need ss used)"] by auto

lemma first_pass_length:
  "int (length ss) \<le> need \<Longrightarrow> int (length (fst (first_pass es need ss used))) \<le> need"
  by (induction es arbitrary: ss used) (auto split: option.splits)

lemma second_pass_length:
  "distinct ss \<Longrightarrow> int (length ss) \<le> need \<Longrightarrow>
     int (length (second_pass es need ss)) = min need (int (card (set ss \<union> set es)))"
proof (induction es arbitrary: ss)
  case Nil
  then show ?case by (simp add: distinct_card)
next
  case (Cons e es)
  consider (full) "int (length ss) \<ge> need" | (dup) "\<not> int (length ss) \<ge> need" "e \<in> set ss"
    | (new) "\<not> int (length ss) \<ge> need" "e \<notin> set ss" by blast
  then show ?case
  proof cases
    case full
    have "card (set ss) \<le> card (set ss \<union> set (e # es))"
      by (intro card_mono) auto
    then show ?thesis using full Cons.prems by (simp add: distinct_card)
  next
    case dup
    have "set ss \<union> set (e # es) = set ss \<union> set es" using dup(2) by auto
    then show ?thesis using dup Cons.IH [OF Cons.prems] by simp
  next
    case new
    have "set ss \<union> set (e # es) = set (ss @ [e]) \<union> set es" by auto
    moreover have "distinct (ss @ [e])" "int (length (ss @ [e])) \<le> need"
      using new Cons.prems by auto
    ultimately show ?thesis using new Cons.IH [of "ss @ [e]"] by simp
  qed
qed

lemma passes_lockstep:
  assumes "length ss \<le> length ps"
    "\<forall>p \<in> set ps. main_author p = None \<or> main_author p \<in> Some ` used"
  shows "\<forall>p \<in> set (second_pass es need ps).
           main_author p = None \<or> main_author p \<in> Some ` snd (first_pass es need ss used)"
  using assms
proof (induction es arbitrary: ss ps used)
  case Nil
  then show ?case by simp
next
  case (Cons e es)
  show ?case
  proof (cases "int (length ps) \<ge> need")
    case True
    then have sp: "second_pass (e # es) need ps = ps" by simp
    have "Some ` used \<subseteq> Some ` snd (first_pass (e # es) need ss used)"
      using first_pass_used_mono [of used "e # es" need ss] by blast
    then show ?thesis unfolding sp using Cons.prems(2) by blast
  next
    case False
    then have ss: "\<not> int (length ss) \<ge> need" using Cons.prems(1) by linarith
    show ?thesis
    proof (cases "e \<in> set ps")
      case True
      then have skip: "main_author e = None \<or> main_author e \<in> Some ` used"
        using Cons.prems(2) by blast
      then have "first_pass (e # es) need ss used = first_pass es need ss used"
        using ss by (auto split: option.splits)
      moreover have "second_pass (e # es) need ps = second_pass es need ps"
        using False True by simp
      ultimately show ?thesis using Cons.IH [OF Cons.prems] by simp
    next
      case new: False
      have sp: "second_pass (e # es) need ps = second_pass es need (ps @ [e])"
        using False new by simp
      show ?thesis
      proof (cases "main_author e = None \<or> main_author e \<in> Some ` used")
        case True
        then have "first_pass (e # es) need ss used = first_pass es need ss used"
          using ss by (auto split: option.splits)
        moreover have "length ss \<le> length (ps @ [e])" using Cons.prems(1) by simp
        moreover have "\<forall>p \<in> set (ps @ [e]). main_author p = None \<or> main_author p \<in> Some ` used"
          using Cons.prems(2) True by auto
        ultimately show ?thesis using sp Cons.IH [of ss "ps @ [e]" used] by simp
      next
        case False
        then obtain a where a: "main_author e = Some a" "a \<notin> used" by auto
        then have "first_pass (e # es) need ss used = first_pass es need (ss @ [e]) (insert a used)"
          using ss by simp
        moreover have "length (ss @ [e]) \<le> length (ps @ [e])" using Cons.prems(1) by simp
        moreover have "\<forall>p \<in> set (ps @ [e]).
            main_author p = None \<or> main_author p \<in> Some ` insert a used"
          using Cons.prems(2) a by auto
        ultimately show ?thesis using sp Cons.IH [of "ss @ [e]" "ps @ [e]" "insert a used"] by simp
      qed
    qed
  qed
qed

lemma select_in_system_vs_random:
  assumes "select_in_system bc need used = (sys, u1, first)" "0 < need"
  shows "(\<forall>p \<in> set (second_pass bc need []). main_author p = None \<or> main_author p \<in> Some ` u1)
       \<and> length (second_pass bc need []) = length sys"
proof -
  have fp: "first_pass bc need [] used = (first, u1)"
    using assms(1) by (auto simp: select_in_system_def Let_def split: prod.splits)
  have 1: "\<forall>p \<in> set (second_pass bc need []). main_author p = None \<or> main_author p \<in> Some ` u1"
    using passes_lockstep [of "[]" "[]" used bc need] fp by simp
  from first_pass_spec [OF fp] have f: "distinct (map main_author first)" "set first \<subseteq> set bc"
    by auto
  have df: "distinct first" using f(1) by (simp add: distinct_map)
  have lf: "int (length first) \<le> need"
    using first_pass_length [of "[]" need bc used] assms(2) fp by simp
  have sys: "sys = (if int (length first) < need then second_pass bc need first else first)"
    using assms(1) fp by (simp add: select_in_system_def Let_def)
  have un: "set first \<union> set bc = set bc" using f(2) by auto
  have p: "int (length (second_pass bc need [])) = min need (int (card (set bc)))"
    using second_pass_length [of "[]" need bc] assms(2) by simp
  have "int (length sys) = min need (int (card (set bc)))"
  proof (cases "int (length first) < need")
    case True
    then show ?thesis using sys second_pass_length [OF df lf, of bc] un by simp
  next
    case False
    then have eq: "int (length first) = need" using lf by simp
    have "card (set first) \<le> card (set bc)" using f(2) by (intro card_mono) auto
    then have "need \<le> int (card (set bc))" using eq df by (simp add: distinct_card)
    then show ?thesis using sys False eq by simp
  qed
  then show ?thesis using 1 p by simp
qed

lemma select_systems_vs_random:
  "select_systems shf b al ss used selD rng picked = (selD', used', rD, picked') \<Longrightarrow>
   select_systems_random shf b al ss selP rng = (selP', rP) \<Longrightarrow>
   \<forall>p \<in> set selP. main_author p = None \<or> main_author p \<in> Some ` used \<Longrightarrow>
   rP = rD \<and> (\<forall>p \<in> set selP'. main_author p = None \<or> main_author p \<in> Some ` used')
     \<and> length selP' + length selD = length selD' + length selP"
proof (induction ss arbitrary: used selD rng picked selP)
  case Nil
  then show ?case by auto
next
  case (Cons s ss)
  show ?case
  proof (cases "alloc_get al s 0 \<le> 0 \<or> bucket_at b s = []")
    case True
    then have "select_systems shf b al ss used selD rng picked = (selD', used', rD, picked')"
      "select_systems_random shf b al ss selP rng = (selP', rP)"
      using Cons.prems(1,2) by (simp_all add: Let_def)
    from Cons.IH [OF this Cons.prems(3)] show ?thesis .
  next
    case False
    obtain bc r1 where sh: "shf rng (bucket_at b s) = (bc, r1)" by (cases "shf rng (bucket_at b s)")
    obtain sys u1 first where si: "select_in_system bc (alloc_get al s 0) used = (sys, u1, first)"
      by (cases "select_in_system bc (alloc_get al s 0) used")
    let ?psel = "second_pass bc (alloc_get al s 0) []"
    have need: "0 < alloc_get al s 0" using False by auto
    note vs = select_in_system_vs_random [OF si need]
    have mono: "used \<subseteq> u1" using select_in_system_spec [OF si] by blast
    have d: "select_systems shf b al ss u1 (selD @ sys) r1 (picked @ first) = (selD', used', rD, picked')"
      using Cons.prems(1) False sh si by (simp add: Let_def)
    have p: "select_systems_random shf b al ss (selP @ ?psel) r1 = (selP', rP)"
      using Cons.prems(2) False sh by (simp add: Let_def)
    have inv: "\<forall>p \<in> set (selP @ ?psel). main_author p = None \<or> main_author p \<in> Some ` u1"
      using Cons.prems(3) vs mono by auto
    from Cons.IH [OF d p inv] show ?thesis using vs by simp
  qed
qed

lemma trim_top_up_exact:
  "int (length selected) = t \<Longrightarrow> trim_top_up smp entries t selected rng = Inr (selected, rng)"
  by (simp add: trim_top_up_def)

text \<open>
  C8, as stated, fails. Six entries in three strata of two, target 2: every stratum gets
  quota 1, the strata are three, so the selection has three entries and the global trim
  draws two of them. With the generator below (seed 1) the trim keeps the entries of the
  second and third stratum: the diversity-preferring run had avoided the used author \<open>X\<close>
  in the second stratum and is left with \<open>Y, Y\<close>, one author, while the run without the
  first pass is left with \<open>X, Y\<close>, two authors.
\<close>

theorem diversity_monotonicity_counterexample:
  "main_author_diverse_stratified_sample exact_round rot_shuffle rot_sample six_entries 2 (1::nat)
     = Some (Inr ([entry_by ''4'' ''s2'' (Some ''Y''), entry_by ''6'' ''s3'' (Some ''Y'')], 5, []))
   \<and> random_stratified_sample exact_round rot_shuffle rot_sample six_entries 2 (1::nat)
     = Some (Inr ([entry_by ''3'' ''s2'' (Some ''X''), entry_by ''6'' ''s3'' (Some ''Y'')], 5, []))
   \<and> distinct_authors [entry_by ''4'' ''s2'' (Some ''Y''), entry_by ''6'' ''s3'' (Some ''Y'')] = 1
   \<and> distinct_authors [entry_by ''3'' ''s2'' (Some ''X''), entry_by ''6'' ''s3'' (Some ''Y'')] = 2"
  by (simp add: main_author_diverse_stratified_sample_def diverse_selection_def
      random_stratified_sample_def random_selection_def distinct_authors_def
      six_entries_def entry_by_def make_buckets_def
      setdefault_append_def systems_sorted_def bucket_at_def allocation_def adjust_alloc_def
      initial_alloc_def exact_round_def remove_surplus.simps alloc_get_def
      rot_shuffle_def rot_sample_def select_in_system_def trim_top_up_def py_sample_def Let_def)

text \<open>
  C8, amended. For every non-empty population, every positive target and every state of
  the generator, the selection stage (all strata, before the global trim and top-up) of
  the diversity-preferring algorithm and of the same algorithm without the first pass
  leave the generator in the same state and choose equally many entries, and every
  non-absent author chosen without the first pass is also chosen with it: the number of
  distinct authors with the first pass is at least the number without. Whenever the
  selection already has exactly the clamped target size, so that no global trim or
  top-up takes place, the two selections are the two final samples.
\<close>

theorem diversity_monotone_selection:
  assumes "shuffle_contract shf" "entries \<noteq> []" "0 < target"
  shows "\<exists>selD used rng' picked selP.
           diverse_selection rnd shf entries (min target (int (length entries))) rng
             = Some (selD, used, rng', picked)
           \<and> random_selection rnd shf entries (min target (int (length entries))) rng
             = Some (selP, rng')
           \<and> length selP = length selD
           \<and> Option.these (main_author ` set selP) \<subseteq> Option.these (main_author ` set selD)
           \<and> distinct_authors selP \<le> distinct_authors selD
           \<and> (int (length selD) = min target (int (length entries)) \<longrightarrow>
                main_author_diverse_stratified_sample rnd shf smp entries target rng
                  = Some (Inr (selD, rng',
                      if int (length entries) < target
                      then [Warn_reducing target (length entries)] else []))
                \<and> random_stratified_sample rnd shf smp entries target rng
                  = Some (Inr (selP, rng',
                      if int (length entries) < target
                      then [Warn_reducing target (length entries)] else [])))"
proof -
  define c where "c = min target (int (length entries))"
  let ?b = "make_buckets entries"
  have cc: "(if int (length entries) < target then int (length entries) else target) = c"
    by (simp add: c_def)
  obtain alloc where al: "allocation rnd entries c = Some alloc"
    using allocation_result [OF assms(2)] by blast
  obtain selD used rD picked where
    d: "select_systems shf ?b alloc (systems_sorted ?b) {} [] rng [] = (selD, used, rD, picked)"
    by (cases "select_systems shf ?b alloc (systems_sorted ?b) {} [] rng []") auto
  obtain selP rP where
    p: "select_systems_random shf ?b alloc (systems_sorted ?b) [] rng = (selP, rP)"
    by (cases "select_systems_random shf ?b alloc (systems_sorted ?b) [] rng")
  have vs: "rP = rD" "\<forall>p \<in> set selP. main_author p = None \<or> main_author p \<in> Some ` used"
    "length selP = length selD"
    using select_systems_vs_random [OF d p] by simp_all
  have pk: "main_author ` set picked = Some ` used" "set picked \<subseteq> set selD"
    using select_systems_spec [OF assms(1) d] by auto
  have sub: "Option.these (main_author ` set selP) \<subseteq> Option.these (main_author ` set selD)"
  proof
    fix a assume "a \<in> Option.these (main_author ` set selP)"
    then obtain e where "e \<in> set selP" "main_author e = Some a"
      by (auto simp: in_these_eq image_iff)
    then have "Some a \<in> Some ` used" using vs(2) by force
    then have "Some a \<in> main_author ` set selD" using pk by blast
    then show "a \<in> Option.these (main_author ` set selD)" by (simp add: in_these_eq)
  qed
  have "finite (Option.these (main_author ` set selD))"
    by (simp add: Option.these_def)
  then have le: "distinct_authors selP \<le> distinct_authors selD"
    unfolding distinct_authors_def using sub by (rule card_mono)
  have ds: "diverse_selection rnd shf entries c rng = Some (selD, used, rD, picked)"
    using al d by (simp add: diverse_selection_def)
  have rs: "random_selection rnd shf entries c rng = Some (selP, rD)"
    using al p vs(1) by (simp add: random_selection_def)
  have fin: "main_author_diverse_stratified_sample rnd shf smp entries target rng
                  = Some (Inr (selD, rD,
                      if int (length entries) < target
                      then [Warn_reducing target (length entries)] else []))
                \<and> random_stratified_sample rnd shf smp entries target rng
                  = Some (Inr (selP, rD,
                      if int (length entries) < target
                      then [Warn_reducing target (length entries)] else []))"
    if len: "int (length selD) = c"
  proof -
    have 1: "trim_top_up smp entries c selD rD = Inr (selD, rD)"
      using len by (rule trim_top_up_exact)
    have 2: "trim_top_up smp entries c selP rD = Inr (selP, rD)"
      using len vs(3) by (intro trim_top_up_exact) simp
    show ?thesis
      using assms(2,3) ds rs 1 2 cc
      by (simp add: main_author_diverse_stratified_sample_def random_stratified_sample_def Let_def)
  qed
  show ?thesis
    unfolding c_def [symmetric] using ds rs vs(3) sub le fin by blast
qed

theorem diversity_monotone_selection_witness:
  "one_author \<noteq> [] \<and> (0::int) < 3
   \<and> (\<exists>selD used rng' picked selP.
         diverse_selection exact_round rot_shuffle one_author 3 (0::nat)
           = Some (selD, used, rng', picked)
         \<and> random_selection exact_round rot_shuffle one_author 3 (0::nat) = Some (selP, rng')
         \<and> int (length selD) = 3
         \<and> distinct_authors selP \<le> distinct_authors selD
         \<and> main_author_diverse_stratified_sample exact_round rot_shuffle rot_sample one_author 3 (0::nat)
             = Some (Inr (selD, rng', []))
         \<and> random_stratified_sample exact_round rot_shuffle rot_sample one_author 3 (0::nat)
             = Some (Inr (selP, rng', [])))"
proof -
  have h: "one_author \<noteq> []" "length one_author = 3"
    by (simp_all add: one_author_def)
  have ev: "diverse_selection exact_round rot_shuffle one_author 3 (0::nat)
     = Some (one_author, {''X''}, 1, [entry_by ''1'' ''bulk'' (Some ''X'')])"
    by (simp add: diverse_selection_def one_author_def entry_by_def make_buckets_def
      setdefault_append_def systems_sorted_def bucket_at_def allocation_def adjust_alloc_def
      initial_alloc_def exact_round_def alloc_get_def rot_shuffle_def select_in_system_def Let_def)
  obtain selD used rng' picked selP where
    w: "diverse_selection exact_round rot_shuffle one_author (min 3 (int (length one_author))) (0::nat)
           = Some (selD, used, rng', picked)"
       "random_selection exact_round rot_shuffle one_author (min 3 (int (length one_author))) (0::nat)
           = Some (selP, rng')"
       "distinct_authors selP \<le> distinct_authors selD"
       "int (length selD) = min 3 (int (length one_author)) \<longrightarrow>
                main_author_diverse_stratified_sample exact_round rot_shuffle rot_sample one_author 3 0
                  = Some (Inr (selD, rng',
                      if int (length one_author) < 3
                      then [Warn_reducing 3 (length one_author)] else []))
                \<and> random_stratified_sample exact_round rot_shuffle rot_sample one_author 3 0
                  = Some (Inr (selP, rng',
                      if int (length one_author) < 3
                      then [Warn_reducing 3 (length one_author)] else []))"
    using diversity_monotone_selection [OF rot_shuffle_contract h(1), of 3 exact_round 0 rot_sample]
    by auto
  have "selD = one_author" using w(1) ev h(2) by simp
  then have "int (length selD) = 3" using h(2) by simp
  then show ?thesis using w h by auto
qed

lemma collect_hits_from_api_result:
  "collect_hits from_api_result hits all_entries
     = Inr (all_entries @ concat (map (\<lambda>d. case from_api_result d of Inl err \<Rightarrow> [] | Inr e \<Rightarrow> [e]) hits))"
proof (induction hits arbitrary: all_entries)
  case Nil
  then show ?case by simp
next
  case (Cons d hits)
  then show ?case by (cases "hit_entry_id d") (simp_all add: from_api_result_def)
qed

lemma collect_hits_from_api_result_ma:
  "collect_hits (from_api_result_ma strip dumps) hits all_entries
     = Inr (all_entries
            @ concat (map (\<lambda>d. case from_api_result_ma strip dumps d of Inl err \<Rightarrow> [] | Inr e \<Rightarrow> [e])
                hits))"
proof (induction hits arbitrary: all_entries)
  case Nil
  then show ?case by simp
next
  case (Cons d hits)
  then show ?case by (cases "hit_entry_id d") (simp_all add: from_api_result_ma_def)
qed

text \<open>
  C9, as stated, fails in its last part: the fetch functions return the list of entries
  and nothing else. A page with one well-formed record and a page with the same record
  between two malformed ones give the same return value, so the caller cannot tell how
  many records were skipped.
\<close>

theorem skipped_count_counterexample:
  "fetch_all_orca_entries (\<lambda>n after. Http_ok [good_hit] None)
     = fetch_all_orca_entries (\<lambda>n after. Http_ok [bad_hit, good_hit, bad_hit] None)
   \<and> fetch_all_entries id (\<lambda>j. ''{}'') (\<lambda>n after. Http_ok [good_hit] None)
     = fetch_all_entries id (\<lambda>j. ''{}'') (\<lambda>n after. Http_ok [bad_hit, good_hit, bad_hit] None)
   \<and> malformed_count [good_hit] = 0
   \<and> malformed_count [bad_hit, good_hit, bad_hit] = 2"
  by (simp add: fetch_all_orca_entries_def fetch_all_entries_def fetch_loop.simps
      from_api_result_def from_api_result_ma_def good_hit_def bad_hit_def malformed_count_def)

text \<open>
  C9, amended. In every fetched page a record that misses \<^verbatim>\<open>entry_id\<close> raises
  \<^verbatim>\<open>KeyError\<close> in \<^verbatim>\<open>from_api_result\<close>, and only such a record does; the loop over the page
  catches it, never raises, and appends to \<^verbatim>\<open>all_entries\<close> exactly the entries of the
  other records, in their order: as many as the page has records minus the malformed
  ones. No count of the skipped records is part of what is returned.
\<close>

theorem malformed_records_skipped:
  "((\<exists>err. from_api_result d = Inl err) \<longleftrightarrow> hit_entry_id d = None)
   \<and> ((\<exists>err. from_api_result_ma strip dumps d = Inl err) \<longleftrightarrow> hit_entry_id d = None)
   \<and> (\<exists>new. collect_hits from_api_result hits all_entries = Inr (all_entries @ new)
          \<and> map Inr new = filter (\<lambda>r. \<not> isl r) (map from_api_result hits)
          \<and> length new + malformed_count hits = length hits)
   \<and> (\<exists>new. collect_hits (from_api_result_ma strip dumps) hits all_entries_ma
            = Inr (all_entries_ma @ new)
          \<and> map Inr new = filter (\<lambda>r. \<not> isl r) (map (from_api_result_ma strip dumps) hits)
          \<and> length new + malformed_count hits = length hits)"
proof -
  have 1: "(\<exists>err. from_api_result d = Inl err) \<longleftrightarrow> hit_entry_id d = None"
    by (auto simp: from_api_result_def split: option.splits)
  have 2: "(\<exists>err. from_api_result_ma strip dumps d = Inl err) \<longleftrightarrow> hit_entry_id d = None"
    by (auto simp: from_api_result_ma_def split: option.splits)
  let ?new = "concat (map (\<lambda>d. case from_api_result d of Inl err \<Rightarrow> [] | Inr e \<Rightarrow> [e]) hits)"
  let ?new' = "concat (map (\<lambda>d. case from_api_result_ma strip dumps d of Inl err \<Rightarrow> [] | Inr e \<Rightarrow> [e]) hits)"
  have 3: "map Inr ?new = filter (\<lambda>r. \<not> isl r) (map from_api_result hits)"
    by (induction hits) (auto split: sum.splits)
  have 4: "length ?new + malformed_count hits = length hits"
    by (induction hits) (auto simp: malformed_count_def from_api_result_def split: option.splits)
  have 5: "map Inr ?new' = filter (\<lambda>r. \<not> isl r) (map (from_api_result_ma strip dumps) hits)"
    by (induction hits) (auto split: sum.splits)
  have 6: "length ?new' + malformed_count hits = length hits"
    by (induction hits) (auto simp: malformed_count_def from_api_result_ma_def split: option.splits)
  show ?thesis
    using 1 2 3 4 5 6 collect_hits_from_api_result [of hits all_entries]
      collect_hits_from_api_result_ma [of strip dumps hits all_entries_ma]
    by blast
qed

section \<open>The store: what the sampling functions update in place\<close>

lemma new_list_simps [simp]:
  "fst (new_list xs h) = next_addr h"
  "next_addr (snd (new_list xs h)) = Suc (next_addr h)"
  "cells (snd (new_list xs h)) = (cells h)(next_addr h := xs)"
  by (simp_all add: new_list_def)

lemma new_list_eq: "new_list xs h = (a, h') \<longleftrightarrow> a = next_addr h \<and> h' = snd (new_list xs h)"
  by (auto simp: new_list_def)

lemma assign_list_simps [simp]:
  "next_addr (assign_list a xs h) = next_addr h"
  "cells (assign_list a xs h) = (cells h)(a := xs)"
  by (simp_all add: assign_list_def)

lemma unchanged_refl: "unchanged h h"
  by (simp add: unchanged_def)

lemma unchanged_trans: "unchanged h h1 \<Longrightarrow> unchanged h1 h2 \<Longrightarrow> unchanged h h2"
  by (auto simp: unchanged_def)

lemma unchanged_new_list: "unchanged h (snd (new_list xs h))"
  by (simp add: unchanged_def)

lemma unchanged_assign:
  "unchanged h0 h \<Longrightarrow> next_addr h0 \<le> a \<Longrightarrow> unchanged h0 (assign_list a xs h)"
  by (auto simp: unchanged_def)

lemma update_append_new: "k \<notin> fst ` set al \<Longrightarrow> AList.update k v al = al @ [(k, v)]"
  by (induction al) auto

lemma map_of_deref: "map_of (deref bk h) s = map_option (cells h) (map_of bk s)"
  by (induction bk) (auto simp: deref_def)

lemma keys_deref: "map fst (deref bk h) = map fst bk"
  by (induction bk) (auto simp: deref_def)

lemma deref_cong:
  "\<forall>a \<in> set (map snd bk). cells h' a = cells h a \<Longrightarrow> deref bk h' = deref bk h"
  by (induction bk) (auto simp: deref_def)

lemma deref_assign:
  "distinct (map snd bk) \<Longrightarrow> map_of bk s = Some a \<Longrightarrow>
     deref bk (assign_list a v h) = AList.update s v (deref bk h)"
proof (induction bk)
  case Nil
  then show ?case by simp
next
  case (Cons p bk)
  obtain s0 a0 where p: "p = (s0, a0)" by (cases p)
  show ?case
  proof (cases "s0 = s")
    case True
    then have a: "a0 = a" using Cons.prems(2) p by simp
    have "\<forall>b \<in> set (map snd bk). cells (assign_list a v h) b = cells h b"
      using Cons.prems(1) p a by auto
    then have "deref bk (assign_list a v h) = deref bk h" by (rule deref_cong)
    then show ?thesis using p True a by (simp add: deref_def)
  next
    case False
    then have m: "map_of bk s = Some a" using Cons.prems(2) p by simp
    then have "a \<in> snd ` set bk" by (metis map_of_SomeD image_eqI snd_conv)
    then have "a0 \<noteq> a" using Cons.prems(1) p by auto
    moreover have "deref bk (assign_list a v h) = AList.update s v (deref bk h)"
      using Cons.prems(1) m by (intro Cons.IH) simp_all
    ultimately show ?thesis using p False by (simp add: deref_def)
  qed
qed

lemma setdefault_append_h_step:
  assumes "distinct (map snd bk)" "\<forall>a \<in> set (map snd bk). n \<le> a \<and> a < next_addr h" "n \<le> next_addr h"
    "setdefault_append_h s e (bk, h) = (bk', h')"
  shows "distinct (map snd bk') \<and> (\<forall>a \<in> set (map snd bk'). n \<le> a \<and> a < next_addr h')
       \<and> n \<le> next_addr h' \<and> next_addr h \<le> next_addr h' \<and> (\<forall>a < n. cells h' a = cells h a)
       \<and> deref bk' h' = setdefault_append (deref bk h) s e"
proof (cases "map_of bk s")
  case None
  have bk': "bk' = bk @ [(s, next_addr h)]" and h': "h' = assign_list (next_addr h) [e] (snd (new_list [] h))"
    using assms(4) None by (simp_all add: setdefault_append_h_def new_list_def)
  have "next_addr h \<notin> set (map snd bk)" using assms(2) by auto
  then have 1: "distinct (map snd bk')" using assms(1) bk' by simp
  have 2: "\<forall>a \<in> set (map snd bk'). n \<le> a \<and> a < next_addr h'"
    using assms(2,3) bk' h' by (auto simp: less_Suc_eq)
  have 3: "\<forall>a < n. cells h' a = cells h a" using assms(3) h' by auto
  have "\<forall>a \<in> set (map snd bk). cells h' a = cells h a" using assms(2) h' by auto
  then have "deref bk h' = deref bk h" by (rule deref_cong)
  then have d: "deref bk' h' = deref bk h @ [(s, [e])]" using bk' h' by (simp add: deref_def)
  have "s \<notin> fst ` set (deref bk h)"
    using None keys_deref [of bk h] by (metis map_of_eq_None_iff set_map)
  then have "setdefault_append (deref bk h) s e = deref bk h @ [(s, [e])]"
    using None by (simp add: setdefault_append_def map_of_deref update_append_new)
  then show ?thesis using 1 2 3 d assms(3) h' by simp
next
  case (Some a)
  have bk': "bk' = bk" and h': "h' = assign_list a (cells h a @ [e]) h"
    using assms(4) Some by (simp_all add: setdefault_append_h_def)
  have "a \<in> snd ` set bk" using Some by (metis map_of_SomeD image_eqI snd_conv)
  then have a: "n \<le> a" using assms(2) by auto
  have 3: "\<forall>b < n. cells h' b = cells h b" using a h' by auto
  have "deref bk h' = AList.update s (cells h a @ [e]) (deref bk h)"
    unfolding h' using assms(1) Some by (rule deref_assign)
  then have "deref bk' h' = setdefault_append (deref bk h) s e"
    using Some bk' by (simp add: setdefault_append_def map_of_deref)
  then show ?thesis using assms(1,2,3) bk' h' 3 by simp
qed

lemma fold_setdefault_append_h:
  assumes "distinct (map snd bk)" "\<forall>a \<in> set (map snd bk). n \<le> a \<and> a < next_addr h" "n \<le> next_addr h"
    "fold (\<lambda>e st. setdefault_append_h (system e) e st) es (bk, h) = (bk', h')"
  shows "distinct (map snd bk') \<and> (\<forall>a \<in> set (map snd bk'). n \<le> a \<and> a < next_addr h')
       \<and> n \<le> next_addr h' \<and> (\<forall>a < n. cells h' a = cells h a)
       \<and> deref bk' h' = fold (\<lambda>e b. setdefault_append b (system e) e) es (deref bk h)"
  using assms
proof (induction es arbitrary: bk h)
  case Nil
  then show ?case by simp
next
  case (Cons e es)
  obtain bk1 h1 where st: "setdefault_append_h (system e) e (bk, h) = (bk1, h1)"
    by (cases "setdefault_append_h (system e) e (bk, h)")
  note s = setdefault_append_h_step [OF Cons.prems(1,2,3) st]
  have f: "fold (\<lambda>e st. setdefault_append_h (system e) e st) es (bk1, h1) = (bk', h')"
    using Cons.prems(4) st by simp
  have "distinct (map snd bk') \<and> (\<forall>a \<in> set (map snd bk'). n \<le> a \<and> a < next_addr h')
       \<and> n \<le> next_addr h' \<and> (\<forall>a < n. cells h' a = cells h1 a)
       \<and> deref bk' h' = fold (\<lambda>e b. setdefault_append b (system e) e) es (deref bk1 h1)"
    using s f by (intro Cons.IH) simp_all
  then show ?case using s by simp
qed

lemma make_buckets_h_spec:
  assumes "make_buckets_h entries h = (bk, h1)"
  shows "distinct (map snd bk) \<and> (\<forall>a \<in> set (map snd bk). next_addr h \<le> a \<and> a < next_addr h1)
       \<and> unchanged h h1 \<and> deref bk h1 = make_buckets (cells h entries)"
proof -
  have "distinct (map snd bk) \<and> (\<forall>a \<in> set (map snd bk). next_addr h \<le> a \<and> a < next_addr h1)
       \<and> next_addr h \<le> next_addr h1 \<and> (\<forall>a < next_addr h. cells h1 a = cells h a)
       \<and> deref bk h1 = fold (\<lambda>e b. setdefault_append b (system e) e) (cells h entries) (deref [] h)"
    using assms unfolding make_buckets_h_def
    by (intro fold_setdefault_append_h) simp_all
  then show ?thesis by (simp add: unchanged_def make_buckets_def deref_def)
qed

lemma draw_samples_h_spec:
  assumes "draw_samples smp alloc (deref items h) (cells h sel) rng = Inr (selected, rng')"
    "\<forall>a \<in> set (map snd items). a \<noteq> sel \<and> a < next_addr h" "sel < next_addr h"
  shows "\<exists>h'. draw_samples_h smp alloc items sel rng h = Inr (rng', h')
           \<and> cells h' sel = selected \<and> next_addr h \<le> next_addr h'
           \<and> (\<forall>a < next_addr h. a \<noteq> sel \<longrightarrow> cells h' a = cells h a)"
  using assms
proof (induction items arbitrary: h rng)
  case Nil
  then show ?case by (simp add: deref_def)
next
  case (Cons p items)
  obtain s b where p: "p = (s, b)" by (cases p)
  let ?k = "min (alloc_get alloc s 0) (int (length (cells h b)))"
  have d: "deref (p # items) h = (s, cells h b) # deref items h" using p by (simp add: deref_def)
  have addrs: "\<forall>a \<in> set (map snd items). a \<noteq> sel \<and> a < next_addr h" using Cons.prems(2) by simp
  show ?case
  proof (cases "?k \<le> 0")
    case True
    then have "draw_samples smp alloc (deref items h) (cells h sel) rng = Inr (selected, rng')"
      using Cons.prems(1) d by (simp add: Let_def)
    from Cons.IH [OF this addrs Cons.prems(3)] show ?thesis using True p by (simp add: Let_def)
  next
    case False
    obtain drawn r1 where ps: "py_sample smp rng (cells h b) ?k = Inr (drawn, r1)"
      using False by (simp add: py_sample_Inr prod_eq_iff)
    let ?h1 = "snd (new_list drawn h)"
    let ?h2 = "assign_list sel (cells ?h1 sel @ cells ?h1 (next_addr h)) ?h1"
    have c2: "cells ?h2 = (cells h)(next_addr h := drawn, sel := cells h sel @ drawn)"
      using Cons.prems(3) by (auto simp: fun_eq_iff)
    have "\<forall>a \<in> set (map snd items). cells ?h2 a = cells h a"
      using addrs by (auto simp: c2)
    then have dd: "deref items ?h2 = deref items h" by (rule deref_cong)
    have cs: "cells ?h2 sel = cells h sel @ drawn" using Cons.prems(3) by simp
    have v: "draw_samples smp alloc (deref items ?h2) (cells ?h2 sel) r1 = Inr (selected, rng')"
      unfolding dd cs using Cons.prems(1) d False ps by (simp add: Let_def)
    have a2: "\<forall>a \<in> set (map snd items). a \<noteq> sel \<and> a < next_addr ?h2" using addrs by auto
    have s2: "sel < next_addr ?h2" using Cons.prems(3) by simp
    from Cons.IH [OF v a2 s2] obtain h' where h': "draw_samples_h smp alloc items sel r1 ?h2 = Inr (rng', h')"
      "cells h' sel = selected" "next_addr ?h2 \<le> next_addr h'"
      "\<forall>a < next_addr ?h2. a \<noteq> sel \<longrightarrow> cells h' a = cells ?h2 a" by blast
    have "draw_samples_h smp alloc (p # items) sel rng h = Inr (rng', h')"
      using p False ps h'(1) by (simp add: Let_def new_list_def)
    moreover have "\<forall>a < next_addr h. a \<noteq> sel \<longrightarrow> cells h' a = cells h a"
      using h'(4) by (auto simp: c2)
    ultimately show ?thesis using h'(2,3) by auto
  qed
qed

lemma trim_top_up_h_spec:
  assumes "trim_top_up smp (cells h entries) t (cells h sel) rng = Inr (res, rng')"
    "sel < next_addr h" "entries < next_addr h"
  shows "\<exists>ra h'. trim_top_up_h smp entries t sel rng h = Inr (ra, rng', h')
           \<and> cells h' ra = res \<and> next_addr h \<le> next_addr h'
           \<and> (\<forall>a < next_addr h. a \<noteq> sel \<longrightarrow> cells h' a = cells h a)"
proof -
  let ?pool = "filter (\<lambda>e. entry_id e \<notin> set (map entry_id (cells h sel))) (cells h entries)"
  let ?k = "min (t - int (length (cells h sel))) (int (length ?pool))"
  consider (trim) "t < int (length (cells h sel))"
    | (topup) "int (length (cells h sel)) < t" "0 < ?k"
    | (none) "int (length (cells h sel)) < t" "\<not> 0 < ?k"
    | (eq) "int (length (cells h sel)) = t" by linarith
  then show ?thesis
  proof cases
    case trim
    then obtain drawn where "py_sample smp rng (cells h sel) t = Inr (drawn, rng')" "res = drawn"
      using assms(1) by (auto simp: trim_top_up_def split: sum.splits)
    then show ?thesis using trim
      by (auto simp: trim_top_up_h_def new_list_def)
  next
    case topup
    then obtain drawn where d: "py_sample smp rng ?pool ?k = Inr (drawn, rng')"
      "res = cells h sel @ drawn"
      using assms(1) by (auto simp: trim_top_up_def Let_def split: sum.splits)
    have ne: "sel \<noteq> next_addr h" "sel \<noteq> Suc (next_addr h)" using assms(2) by auto
    show ?thesis
      using topup d ne assms(2)
      by (auto simp: trim_top_up_h_def new_list_def Let_def)
  next
    case none
    then have "res = cells h sel" "rng' = rng"
      using assms(1) by (auto simp: trim_top_up_def Let_def)
    moreover have ne: "sel \<noteq> next_addr h" using assms(2) by auto
    ultimately show ?thesis using none assms(2)
      by (auto simp: trim_top_up_h_def new_list_def Let_def)
  next
    case eq
    then have "res = cells h sel" "rng' = rng"
      using assms(1) by (auto simp: trim_top_up_def)
    then show ?thesis using eq by (auto simp: trim_top_up_h_def)
  qed
qed

lemma stratified_sample_h_spec:
  assumes "stratified_sample rnd smp (cells h entries) t rng = Some (Inr (sample, rng', notices))"
    "entries < next_addr h"
  shows "\<exists>ra h'. stratified_sample_h rnd smp entries t rng h = Some (Inr (ra, rng', notices, h'))
           \<and> cells h' ra = sample \<and> unchanged h h'"
proof -
  let ?es = "cells h entries"
  define c where "c = (if t > int (length ?es) then int (length ?es) else t)"
  have pos: "\<not> t \<le> 0" "length ?es \<noteq> 0"
    using assms(1) by (auto simp: stratified_sample_def split: if_splits)
  obtain alloc where al: "allocation rnd ?es c = Some alloc"
    using assms(1) pos by (auto simp: stratified_sample_def Let_def c_def split: option.splits)
  obtain sel r1 where dr: "draw_samples smp alloc (make_buckets ?es) [] rng = Inr (sel, r1)"
    using draw_samples_returns [of smp alloc "make_buckets ?es" "[]" rng] by blast
  have tr: "trim_top_up smp ?es c sel r1 = Inr (sample, rng')"
    and nt: "notices = (if t > int (length ?es) then [Warn_reducing t (length ?es)] else [])"
    using assms(1) pos al dr
    by (auto simp: stratified_sample_def Let_def c_def split: sum.splits)
  obtain bk h1 where mb: "make_buckets_h entries h = (bk, h1)"
    by (cases "make_buckets_h entries h")
  note b = make_buckets_h_spec [OF mb]
  let ?h2 = "snd (new_list [] h1)"
  have u1: "unchanged h h1" using b by simp
  have t1: "next_addr h \<le> next_addr h1" using u1 by (simp add: unchanged_def)
  have "\<forall>a \<in> set (map snd bk). cells ?h2 a = cells h1 a" using b by auto
  then have d2: "deref bk ?h2 = make_buckets ?es" using b deref_cong [of bk ?h2 h1] by simp
  have al': "adjust_alloc (initial_alloc rnd (deref bk h1) (length ?es) c)
      (systems_sorted (deref bk h1)) c = Some alloc"
    using al b by (simp add: allocation_def Let_def)
  have v: "draw_samples smp alloc (deref bk ?h2) (cells ?h2 (next_addr h1)) rng = Inr (sel, r1)"
    using dr d2 by simp
  have a2: "\<forall>a \<in> set (map snd bk). a \<noteq> next_addr h1 \<and> a < next_addr ?h2" using b by auto
  from draw_samples_h_spec [OF v a2] obtain h3 where
    h3: "draw_samples_h smp alloc bk (next_addr h1) rng ?h2 = Inr (r1, h3)" "cells h3 (next_addr h1) = sel"
      "next_addr ?h2 \<le> next_addr h3" "\<forall>a < next_addr ?h2. a \<noteq> next_addr h1 \<longrightarrow> cells h3 a = cells ?h2 a" by auto
  have e3: "cells h3 entries = ?es"
    using h3(4) assms(2) t1 u1 by (auto simp: unchanged_def)
  have "trim_top_up smp (cells h3 entries) c (cells h3 (next_addr h1)) r1 = Inr (sample, rng')"
    using tr e3 h3(2) by simp
  from trim_top_up_h_spec [OF this] obtain ra h4 where
    h4: "trim_top_up_h smp entries c (next_addr h1) r1 h3 = Inr (ra, rng', h4)" "cells h4 ra = sample"
      "next_addr h3 \<le> next_addr h4" "\<forall>a < next_addr h3. a \<noteq> next_addr h1 \<longrightarrow> cells h4 a = cells h3 a"
    using h3(3) assms(2) t1 by auto
  have "stratified_sample_h rnd smp entries t rng h = Some (Inr (ra, rng', notices, h4))"
    using pos mb al' h3(1) h4(1) nt
    by (simp add: stratified_sample_h_def Let_def c_def new_list_def)
  moreover have "unchanged h h4"
    using u1 t1 h3(3,4) h4(3,4) by (auto simp: unchanged_def)
  ultimately show ?thesis using h4(2) by blast
qed

lemma bucket_at_deref:
  "bucket_at (deref bk h) s = (case map_of bk s of None \<Rightarrow> [] | Some a \<Rightarrow> cells h a)"
  by (simp add: bucket_at_def map_of_deref split: option.splits)

lemma select_systems_h_step:
  assumes "map_of bk s = Some b" "\<not> (alloc_get alloc s 0 \<le> 0 \<or> cells h b = [])"
    "shf rng (cells h b) = (shuffled, r1)"
    "select_in_system shuffled (alloc_get alloc s 0) used = (sys, u1, first)"
    "sel < next_addr h"
  shows "\<exists>h6. select_systems_h shf bk alloc (s # ss) used sel rng h
             = select_systems_h shf bk alloc ss u1 sel r1 h6
           \<and> next_addr h6 = Suc (Suc (next_addr h))
           \<and> cells h6 = (cells h)(next_addr h := shuffled, Suc (next_addr h) := sys, sel := cells h sel @ sys)"
proof -
  let ?need = "alloc_get alloc s 0"
  let ?c = "next_addr h"
  let ?a = "Suc (next_addr h)"
  let ?h3 = "snd (new_list [] (assign_list ?c shuffled (snd (new_list (cells h b) h))))"
  have fp: "first_pass shuffled ?need [] used = (first, u1)"
    using assms(4) by (auto simp: select_in_system_def Let_def split: prod.splits)
  have sys: "sys = (if int (length first) < ?need then second_pass shuffled ?need first else first)"
    using assms(4) fp by (simp add: select_in_system_def Let_def)
  let ?h4 = "assign_list ?a first ?h3"
  let ?h5 = "if int (length (cells ?h4 ?a)) < ?need
             then assign_list ?a (second_pass (cells ?h4 ?c) ?need (cells ?h4 ?a)) ?h4 else ?h4"
  let ?h6 = "assign_list sel (cells ?h5 sel @ cells ?h5 ?a) ?h5"
  have c3: "cells ?h3 ?c = shuffled" "cells ?h3 ?a = []" "next_addr ?h3 = Suc (Suc (next_addr h))"
    by simp_all
  have c4: "cells ?h4 ?c = shuffled" "cells ?h4 ?a = first" by simp_all
  have c5: "cells ?h5 ?a = sys" "next_addr ?h5 = Suc (Suc (next_addr h))"
    "cells ?h5 sel = cells h sel"
    using assms(5) by (simp_all add: sys)
  have t6: "next_addr ?h6 = Suc (Suc (next_addr h))" by simp
  have c6: "cells ?h6 = (cells h)(next_addr h := shuffled, Suc (next_addr h) := sys, sel := cells h sel @ sys)"
    using assms(5) by (auto simp: fun_eq_iff sys)
  have "select_systems_h shf bk alloc (s # ss) used sel rng h
      = select_systems_h shf bk alloc ss u1 sel r1 ?h6"
    using assms(1,2,3) fp
    by (simp add: Let_def new_list_def)
  then show ?thesis using t6 c6 by blast
qed

lemma select_systems_h_spec:
  assumes "select_systems shf (deref bk h) alloc ss used (cells h sel) rng picked
             = (selected, used', rng', picked')"
    "\<forall>a \<in> set (map snd bk). a \<noteq> sel \<and> a < next_addr h" "sel < next_addr h"
  shows "\<exists>h'. select_systems_h shf bk alloc ss used sel rng h = (used', rng', h')
           \<and> cells h' sel = selected \<and> next_addr h \<le> next_addr h'
           \<and> (\<forall>a < next_addr h. a \<noteq> sel \<longrightarrow> cells h' a = cells h a)"
  using assms
proof (induction ss arbitrary: used h rng picked)
  case Nil
  then show ?case by simp
next
  case (Cons s ss)
  show ?case
  proof (cases "map_of bk s")
    case None
    then have "select_systems shf (deref bk h) alloc ss used (cells h sel) rng picked
             = (selected, used', rng', picked')"
      using Cons.prems(1) by (simp add: bucket_at_deref Let_def)
    from Cons.IH [OF this Cons.prems(2,3)] show ?thesis using None by simp
  next
    case (Some b)
    then have ba: "bucket_at (deref bk h) s = cells h b" by (simp add: bucket_at_deref)
    show ?thesis
    proof (cases "alloc_get alloc s 0 \<le> 0 \<or> cells h b = []")
      case True
      then have "select_systems shf (deref bk h) alloc ss used (cells h sel) rng picked
             = (selected, used', rng', picked')"
        using Cons.prems(1) ba by (simp add: Let_def)
      from Cons.IH [OF this Cons.prems(2,3)] show ?thesis using Some True by (simp add: Let_def)
    next
      case False
      obtain shuffled r1 where sh: "shf rng (cells h b) = (shuffled, r1)"
        by (cases "shf rng (cells h b)")
      obtain sys u1 first where
        si: "select_in_system shuffled (alloc_get alloc s 0) used = (sys, u1, first)"
        by (cases "select_in_system shuffled (alloc_get alloc s 0) used")
      from select_systems_h_step [where shf = shf and rng = rng and ss = ss,
          OF Some False sh si Cons.prems(3)]
      obtain h6 where h6: "select_systems_h shf bk alloc (s # ss) used sel rng h
             = select_systems_h shf bk alloc ss u1 sel r1 h6"
        "next_addr h6 = Suc (Suc (next_addr h))"
        "cells h6 = (cells h)(next_addr h := shuffled, Suc (next_addr h) := sys, sel := cells h sel @ sys)"
        by blast
      have "\<forall>a \<in> set (map snd bk). cells h6 a = cells h a"
        using Cons.prems(2) h6(3) by auto
      then have dd: "deref bk h6 = deref bk h" by (rule deref_cong)
      have cs: "cells h6 sel = cells h sel @ sys" using h6(3) by simp
      have v: "select_systems shf (deref bk h6) alloc ss u1 (cells h6 sel) r1 (picked @ first)
             = (selected, used', rng', picked')"
        unfolding dd cs using Cons.prems(1) ba False sh si by (simp add: Let_def)
      have a6: "\<forall>a \<in> set (map snd bk). a \<noteq> sel \<and> a < next_addr h6"
        using Cons.prems(2) h6(2) by auto
      have s6: "sel < next_addr h6" using Cons.prems(3) h6(2) by simp
      from Cons.IH [OF v a6 s6] obtain h' where
        h': "select_systems_h shf bk alloc ss u1 sel r1 h6 = (used', rng', h')"
          "cells h' sel = selected" "next_addr h6 \<le> next_addr h'"
          "\<forall>a < next_addr h6. a \<noteq> sel \<longrightarrow> cells h' a = cells h6 a" by blast
      have "\<forall>a < next_addr h. a \<noteq> sel \<longrightarrow> cells h' a = cells h a"
        using h'(4) h6(2,3) by auto
      then show ?thesis using h6(1,2) h'(1,2,3) by auto
    qed
  qed
qed

lemma diverse_sample_h_spec:
  assumes "main_author_diverse_stratified_sample rnd shf smp (cells h entries) t rng
             = Some (Inr (sample, rng', notices))"
    "entries < next_addr h"
  shows "\<exists>ra h'. main_author_diverse_stratified_sample_h rnd shf smp entries t rng h
             = Some (Inr (ra, rng', notices, h'))
           \<and> cells h' ra = sample \<and> unchanged h h'"
proof -
  let ?es = "cells h entries"
  define c where "c = (if t > int (length ?es) then int (length ?es) else t)"
  have pos: "\<not> t \<le> 0" "length ?es \<noteq> 0"
    using assms(1) by (auto simp: main_author_diverse_stratified_sample_def split: if_splits)
  obtain alloc where al: "allocation rnd ?es c = Some alloc"
    using assms(1) pos
    by (auto simp: main_author_diverse_stratified_sample_def diverse_selection_def Let_def c_def
        split: option.splits)
  obtain sel used r1 picked where
    ss: "select_systems shf (make_buckets ?es) alloc (systems_sorted (make_buckets ?es)) {} [] rng []
           = (sel, used, r1, picked)"
    by (cases "select_systems shf (make_buckets ?es) alloc (systems_sorted (make_buckets ?es)) {} [] rng []")
      auto
  have tr: "trim_top_up smp ?es c sel r1 = Inr (sample, rng')"
    and nt: "notices = (if t > int (length ?es) then [Warn_reducing t (length ?es)] else [])"
    using assms(1) pos al ss
    by (auto simp: main_author_diverse_stratified_sample_def diverse_selection_def Let_def c_def
        split: sum.splits)
  obtain bk h1 where mb: "make_buckets_h entries h = (bk, h1)"
    by (cases "make_buckets_h entries h")
  note b = make_buckets_h_spec [OF mb]
  let ?h2 = "snd (new_list [] h1)"
  have u1: "unchanged h h1" using b by simp
  have t1: "next_addr h \<le> next_addr h1" using u1 by (simp add: unchanged_def)
  have "\<forall>a \<in> set (map snd bk). cells ?h2 a = cells h1 a" using b by auto
  then have d2: "deref bk ?h2 = make_buckets ?es" using b deref_cong [of bk ?h2 h1] by simp
  have d1: "deref bk h1 = make_buckets ?es" using b by simp
  have al': "adjust_alloc (initial_alloc rnd (deref bk h1) (length ?es) c)
      (systems_sorted (deref bk h1)) c = Some alloc"
    using al d1 by (simp add: allocation_def Let_def)
  have v: "select_systems shf (deref bk ?h2) alloc (systems_sorted (make_buckets ?es)) {}
             (cells ?h2 (next_addr h1)) rng [] = (sel, used, r1, picked)"
    using ss d2 by simp
  have a2: "\<forall>a \<in> set (map snd bk). a \<noteq> next_addr h1 \<and> a < next_addr ?h2" using b by auto
  from select_systems_h_spec [OF v a2] obtain h3 where
    h3: "select_systems_h shf bk alloc (systems_sorted (make_buckets ?es)) {} (next_addr h1) rng ?h2
           = (used, r1, h3)" "cells h3 (next_addr h1) = sel"
      "next_addr ?h2 \<le> next_addr h3" "\<forall>a < next_addr ?h2. a \<noteq> next_addr h1 \<longrightarrow> cells h3 a = cells ?h2 a" by auto
  have e3: "cells h3 entries = ?es"
    using h3(4) assms(2) t1 u1 by (auto simp: unchanged_def)
  have "trim_top_up smp (cells h3 entries) c (cells h3 (next_addr h1)) r1 = Inr (sample, rng')"
    using tr e3 h3(2) by simp
  from trim_top_up_h_spec [OF this] obtain ra h4 where
    h4: "trim_top_up_h smp entries c (next_addr h1) r1 h3 = Inr (ra, rng', h4)" "cells h4 ra = sample"
      "next_addr h3 \<le> next_addr h4" "\<forall>a < next_addr h3. a \<noteq> next_addr h1 \<longrightarrow> cells h4 a = cells h3 a"
    using h3(3) assms(2) t1 by auto
  have "main_author_diverse_stratified_sample_h rnd shf smp entries t rng h
      = Some (Inr (ra, rng', notices, h4))"
    using pos mb al' d1 h3(1) h4(1) nt
    by (simp add: main_author_diverse_stratified_sample_h_def Let_def c_def new_list_def)
  moreover have "unchanged h h4"
    using u1 t1 h3(3,4) h4(3,4) by (auto simp: unchanged_def)
  ultimately show ?thesis using h4(2) by blast
qed

text \<open>
  C10. On a store that holds the population at an address, with at least one entry and
  a positive target, both sampling functions return, and in the store they leave behind
  every list that existed before the call, the population among them, has the value it
  had: all that they update in place are lists that they have created themselves (the
  buckets, the shuffled copies, \<open>system_selected\<close>, \<open>selected\<close>). The list at the
  returned address, the generator and the warnings are those of the functions on values.
\<close>

theorem input_not_mutated:
  assumes "entries < next_addr h" "cells h entries \<noteq> []" "0 < target"
    and "entries' < next_addr h'" "cells h' entries' \<noteq> []" "0 < target'"
  shows "(\<exists>ra rng' notices hf.
            stratified_sample_h rnd smp entries target rng h = Some (Inr (ra, rng', notices, hf))
            \<and> unchanged h hf \<and> cells hf entries = cells h entries
            \<and> stratified_sample rnd smp (cells h entries) target rng
                = Some (Inr (cells hf ra, rng', notices)))
       \<and> (\<exists>ra rng' notices hf.
            main_author_diverse_stratified_sample_h rnd shf smp' entries' target' rng0 h'
              = Some (Inr (ra, rng', notices, hf))
            \<and> unchanged h' hf \<and> cells hf entries' = cells h' entries'
            \<and> main_author_diverse_stratified_sample rnd shf smp' (cells h' entries') target' rng0
                = Some (Inr (cells hf ra, rng', notices)))"
proof
  obtain sample rng' notices where
    v: "stratified_sample rnd smp (cells h entries) target rng = Some (Inr (sample, rng', notices))"
    using stratified_sample_returns [OF assms(2,3), of rnd smp rng] by blast
  from stratified_sample_h_spec [OF v assms(1)] obtain ra hf where
    r: "stratified_sample_h rnd smp entries target rng h = Some (Inr (ra, rng', notices, hf))"
      "cells hf ra = sample" "unchanged h hf" by blast
  have "cells hf entries = cells h entries" using r(3) assms(1) by (simp add: unchanged_def)
  then show "\<exists>ra rng' notices hf.
            stratified_sample_h rnd smp entries target rng h = Some (Inr (ra, rng', notices, hf))
            \<and> unchanged h hf \<and> cells hf entries = cells h entries
            \<and> stratified_sample rnd smp (cells h entries) target rng
                = Some (Inr (cells hf ra, rng', notices))"
    using v r by blast
next
  obtain sample rng' notices where
    v: "main_author_diverse_stratified_sample rnd shf smp' (cells h' entries') target' rng0
          = Some (Inr (sample, rng', notices))"
    using diverse_sample_returns [OF assms(5,6), of rnd shf smp' rng0] by blast
  from diverse_sample_h_spec [OF v assms(4)] obtain ra hf where
    r: "main_author_diverse_stratified_sample_h rnd shf smp' entries' target' rng0 h'
          = Some (Inr (ra, rng', notices, hf))"
      "cells hf ra = sample" "unchanged h' hf" by blast
  have "cells hf entries' = cells h' entries'" using r(3) assms(4) by (simp add: unchanged_def)
  then show "\<exists>ra rng' notices hf.
            main_author_diverse_stratified_sample_h rnd shf smp' entries' target' rng0 h'
              = Some (Inr (ra, rng', notices, hf))
            \<and> unchanged h' hf \<and> cells hf entries' = cells h' entries'
            \<and> main_author_diverse_stratified_sample rnd shf smp' (cells h' entries') target' rng0
                = Some (Inr (cells hf ra, rng', notices))"
    using v r by blast
qed

theorem input_not_mutated_witness:
  "(0::nat) < next_addr (store_of three_strata) \<and> cells (store_of three_strata) 0 \<noteq> []
   \<and> (0::int) < 2
   \<and> (0::nat) < next_addr (store_of six_entries) \<and> cells (store_of six_entries) 0 \<noteq> []
   \<and> (\<exists>ra rng' notices hf.
         stratified_sample_h exact_round rot_sample 0 2 (1::nat) (store_of three_strata)
           = Some (Inr (ra, rng', notices, hf))
         \<and> unchanged (store_of three_strata) hf \<and> cells hf 0 = three_strata)
   \<and> (\<exists>ra rng' notices hf.
         main_author_diverse_stratified_sample_h exact_round rot_shuffle rot_sample 0 2 (1::nat)
           (store_of six_entries)
           = Some (Inr (ra, rng', notices, hf))
         \<and> unchanged (store_of six_entries) hf \<and> cells hf 0 = six_entries)"
proof -
  have h1: "(0::nat) < next_addr (store_of three_strata)" "cells (store_of three_strata) 0 \<noteq> []"
    "cells (store_of three_strata) 0 = three_strata"
    by (simp_all add: store_of_def three_strata_def)
  have h2: "(0::nat) < next_addr (store_of six_entries)" "cells (store_of six_entries) 0 \<noteq> []"
    "cells (store_of six_entries) 0 = six_entries"
    by (simp_all add: store_of_def six_entries_def)
  have t: "(0::int) < 2" by simp
  show ?thesis
    using input_not_mutated [OF h1(1,2) t h2(1,2) t, of exact_round rot_sample 1 rot_shuffle rot_sample 1]
      h1 h2
    by auto
qed

text \<open>
  C2. Two calls of a sampling function with the same entries in the same order, the same
  target and two generators created from the same seed return the same result: the same
  sample in the same order, the same final state of the generator and the same warnings
  (or the same error). This holds for the functions on values, and for two calls on any
  two stores that hold the population at whatever addresses: the lists at the two
  returned addresses are equal. \<open>Random\<close> stands for \<^verbatim>\<open>random.Random(seed)\<close>.
\<close>

theorem determinism:
  assumes "seed = seed'"
    and "cells h1 entries1 = cells h2 entries2" "entries1 < next_addr h1" "entries2 < next_addr h2"
      "cells h1 entries1 \<noteq> []" "0 < target"
    and "cells k1 pop1 = cells k2 pop2" "pop1 < next_addr k1" "pop2 < next_addr k2"
      "cells k1 pop1 \<noteq> []"
  shows "stratified_sample rnd smp entries target (Random seed)
           = stratified_sample rnd smp entries target (Random seed')
       \<and> main_author_diverse_stratified_sample rnd shf smp' entries' target (Random seed)
           = main_author_diverse_stratified_sample rnd shf smp' entries' target (Random seed')
       \<and> (\<exists>ra1 ra2 rng' notices hf1 hf2.
             stratified_sample_h rnd smp entries1 target (Random seed) h1
               = Some (Inr (ra1, rng', notices, hf1))
             \<and> stratified_sample_h rnd smp entries2 target (Random seed') h2
               = Some (Inr (ra2, rng', notices, hf2))
             \<and> cells hf1 ra1 = cells hf2 ra2)
       \<and> (\<exists>ra1 ra2 rng' notices hf1 hf2.
             main_author_diverse_stratified_sample_h rnd shf smp' pop1 target (Random seed) k1
               = Some (Inr (ra1, rng', notices, hf1))
             \<and> main_author_diverse_stratified_sample_h rnd shf smp' pop2 target (Random seed') k2
               = Some (Inr (ra2, rng', notices, hf2))
             \<and> cells hf1 ra1 = cells hf2 ra2)"
proof -
  obtain sample rng' notices where
    v: "stratified_sample rnd smp (cells h1 entries1) target (Random seed)
          = Some (Inr (sample, rng', notices))"
    using stratified_sample_returns [OF assms(5,6), of rnd smp "Random seed"] by blast
  then have v': "stratified_sample rnd smp (cells h2 entries2) target (Random seed')
          = Some (Inr (sample, rng', notices))"
    using assms(1,2) by simp
  from stratified_sample_h_spec [OF v assms(3)] stratified_sample_h_spec [OF v' assms(4)]
  have a: "\<exists>ra1 ra2 rng' notices hf1 hf2.
             stratified_sample_h rnd smp entries1 target (Random seed) h1
               = Some (Inr (ra1, rng', notices, hf1))
             \<and> stratified_sample_h rnd smp entries2 target (Random seed') h2
               = Some (Inr (ra2, rng', notices, hf2))
             \<and> cells hf1 ra1 = cells hf2 ra2"
    by (metis (no_types, lifting))
  obtain sampleD rngD noticesD where
    w: "main_author_diverse_stratified_sample rnd shf smp' (cells k1 pop1) target (Random seed)
          = Some (Inr (sampleD, rngD, noticesD))"
    using diverse_sample_returns [OF assms(10,6), of rnd shf smp' "Random seed"] by blast
  then have w': "main_author_diverse_stratified_sample rnd shf smp' (cells k2 pop2) target (Random seed')
          = Some (Inr (sampleD, rngD, noticesD))"
    using assms(1,7) by simp
  from diverse_sample_h_spec [OF w assms(8)] diverse_sample_h_spec [OF w' assms(9)]
  have b: "\<exists>ra1 ra2 rng' notices hf1 hf2.
             main_author_diverse_stratified_sample_h rnd shf smp' pop1 target (Random seed) k1
               = Some (Inr (ra1, rng', notices, hf1))
             \<and> main_author_diverse_stratified_sample_h rnd shf smp' pop2 target (Random seed') k2
               = Some (Inr (ra2, rng', notices, hf2))
             \<and> cells hf1 ra1 = cells hf2 ra2"
    by (metis (no_types, lifting))
  show ?thesis using assms(1) a b by simp
qed

theorem determinism_witness:
  "(1::nat) = 1
   \<and> cells (store_of three_strata) 0 = cells (store_after [entry ''9'' ''z''] three_strata) 1
   \<and> (0::nat) < next_addr (store_of three_strata)
   \<and> (1::nat) < next_addr (store_after [entry ''9'' ''z''] three_strata)
   \<and> cells (store_of three_strata) 0 \<noteq> [] \<and> (0::int) < 2
   \<and> cells (store_of six_entries) 0 = cells (store_after [] six_entries) 1
   \<and> (0::nat) < next_addr (store_of six_entries)
   \<and> (1::nat) < next_addr (store_after [] six_entries)
   \<and> cells (store_of six_entries) 0 \<noteq> []
   \<and> (\<exists>ra1 ra2 rng' notices hf1 hf2.
         stratified_sample_h exact_round rot_sample 0 2 (id (1::nat)) (store_of three_strata)
           = Some (Inr (ra1, rng', notices, hf1))
         \<and> stratified_sample_h exact_round rot_sample 1 2 (id (1::nat))
             (store_after [entry ''9'' ''z''] three_strata)
           = Some (Inr (ra2, rng', notices, hf2))
         \<and> cells hf1 ra1 = cells hf2 ra2)
   \<and> (\<exists>ra1 ra2 rng' notices hf1 hf2.
         main_author_diverse_stratified_sample_h exact_round rot_shuffle rot_sample 0 2 (id (1::nat))
           (store_of six_entries)
           = Some (Inr (ra1, rng', notices, hf1))
         \<and> main_author_diverse_stratified_sample_h exact_round rot_shuffle rot_sample 1 2
             (id (1::nat)) (store_after [] six_entries)
           = Some (Inr (ra2, rng', notices, hf2))
         \<and> cells hf1 ra1 = cells hf2 ra2)"
proof -
  have a: "cells (store_of three_strata) 0 = cells (store_after [entry ''9'' ''z''] three_strata) 1"
    "(0::nat) < next_addr (store_of three_strata)"
    "(1::nat) < next_addr (store_after [entry ''9'' ''z''] three_strata)"
    "cells (store_of three_strata) 0 \<noteq> []"
    by (simp_all add: store_of_def store_after_def three_strata_def)
  have b: "cells (store_of six_entries) 0 = cells (store_after [] six_entries) 1"
    "(0::nat) < next_addr (store_of six_entries)"
    "(1::nat) < next_addr (store_after [] six_entries)"
    "cells (store_of six_entries) 0 \<noteq> []"
    by (simp_all add: store_of_def store_after_def six_entries_def)
  have t: "(0::int) < 2" "(1::nat) = 1" by simp_all
  show ?thesis
    using determinism [OF t(2) a t(1) b, of exact_round rot_sample _ id rot_shuffle rot_sample]
      a b
    by simp
qed

end
